theory Spec2Isabelle
  imports Main "HOL-Library.Word"
begin

unbundle bit_operations_syntax

section \<open>Bytes, machine words and memory\<close>

text \<open>
  The source is C++ over \<^verbatim>\<open>char *\<close> buffers. A byte is an 8-bit word. A
  \<^verbatim>\<open>memcpy\<close> between a byte buffer and an integer variable is modelled on a
  little-endian host: \<open>word_of_le\<close> reads the bytes of an integer variable,
  \<open>le_of_word\<close> stores them. \<open>cond_byte_swap\<close> reverses the bytes on such a host.
\<close>

type_synonym byte = "8 word"

definition word_of_le :: "byte list \<Rightarrow> 'a::len word" where
  "word_of_le bs = word_rcat (rev bs)"

definition le_of_word :: "nat \<Rightarrow> 'a::len word \<Rightarrow> byte list" where
  "le_of_word n w = map (\<lambda>i. ucast (drop_bit (8 * i) w)) [0..<n]"

definition cond_byte_swap :: "nat \<Rightarrow> 'a::len word \<Rightarrow> 'a word" where
  "cond_byte_swap n w = word_of_le (rev (le_of_word n w))"

definition bytes_of_string :: "string \<Rightarrow> byte list" where
  "bytes_of_string s = map (\<lambda>c. of_nat (of_char c)) s"

section \<open>Error messages and opcodes\<close>

definition ERR_TOO_BIG_MESSAGE :: string where
  "ERR_TOO_BIG_MESSAGE = ''Received too big message''"

definition ERR_INVALID_CLOSE_PAYLOAD :: string where
  "ERR_INVALID_CLOSE_PAYLOAD = ''Received invalid close payload''"

definition ERR_PROTOCOL :: string where
  "ERR_PROTOCOL = ''Received invalid WebSocket frame''"

definition CONTINUATION :: byte where "CONTINUATION = 0"
definition TEXT :: byte where "TEXT = 1"
definition BINARY :: byte where "BINARY = 2"
definition CLOSE :: byte where "CLOSE = 8"
definition PING :: byte where "PING = 9"
definition PONG :: byte where "PONG = 10"

section \<open>The UTF-8 validator\<close>

text \<open>
  \<open>isValidUtf8 s\<close> is the source function on the bytes \<open>[s, s + length)\<close>. The outer
  \<^verbatim>\<open>for\<close> loop is the recursion; \<open>ascii16\<close> is the test of the two 64-bit words on
  the fast path; the inner \<^verbatim>\<open>while\<close> that skips bytes without the high bit is
  \<open>dropWhile\<close>. The tests \<^verbatim>\<open>s + k >= e\<close> are \<open>length t \<le> k\<close>; C evaluates the
  disjunctions left to right, so no byte is read past the end.
\<close>

definition ascii16 :: "byte list \<Rightarrow> bool" where
  "ascii16 s \<longleftrightarrow>
     (((word_of_le (take 8 s) :: 64 word) AND 0x8080808080808080) OR
      ((word_of_le (take 8 (drop 8 s)) :: 64 word) AND 0x8080808080808080)) = 0"

function isValidUtf8 :: "byte list \<Rightarrow> bool" where
  "isValidUtf8 s =
    (if s = [] then True
     else if 16 \<le> length s \<and> ascii16 s then isValidUtf8 (drop 16 s)
     else (let t = dropWhile (\<lambda>c. c AND 0x80 = 0) s in
       if t = [] then True
       else if (t ! 0) AND 0x60 = 0x40 then
         (if length t \<le> 1 \<or> (t ! 1) AND 0xc0 \<noteq> 0x80 \<or> (t ! 0) AND 0xfe = 0xc0
          then False else isValidUtf8 (drop 2 t))
       else if (t ! 0) AND 0xf0 = 0xe0 then
         (if length t \<le> 2 \<or> (t ! 1) AND 0xc0 \<noteq> 0x80 \<or> (t ! 2) AND 0xc0 \<noteq> 0x80 \<or>
             (t ! 0 = 0xe0 \<and> (t ! 1) AND 0xe0 = 0x80) \<or> (t ! 0 = 0xed \<and> (t ! 1) AND 0xe0 = 0xa0)
          then False else isValidUtf8 (drop 3 t))
       else if (t ! 0) AND 0xf8 = 0xf0 then
         (if length t \<le> 3 \<or> (t ! 1) AND 0xc0 \<noteq> 0x80 \<or> (t ! 2) AND 0xc0 \<noteq> 0x80 \<or>
             (t ! 3) AND 0xc0 \<noteq> 0x80 \<or> (t ! 0 = 0xf0 \<and> (t ! 1) AND 0xf0 = 0x80) \<or>
             (t ! 0 = 0xf4 \<and> (t ! 1) > 0x8f) \<or> (t ! 0) > 0xf4
          then False else isValidUtf8 (drop 4 t))
       else False))"
  by pat_completeness auto
termination
  apply (relation "measure length")
      apply simp
     apply simp
  subgoal for s t using length_dropWhile_le[of "(\<lambda>c. c AND 0x80 = 0)" s] by auto
  subgoal for s t using length_dropWhile_le[of "(\<lambda>c. c AND 0x80 = 0)" s] by auto
  subgoal for s t using length_dropWhile_le[of "(\<lambda>c. c AND 0x80 = 0)" s] by auto
  done

declare isValidUtf8.simps [simp del]

subsection \<open>Well-formed UTF-8, after RFC 3629\<close>

text \<open>
  The reference notion the validator is compared with. A Unicode scalar value is a code
  point up to U+10FFFF outside the surrogate range. \<open>utf8_encode\<close> is the encoding of
  RFC 3629, section 3: the shortest of the four forms that holds the code point. A byte
  string is well formed when it is the concatenation of the encodings of scalar values;
  an overlong form, a surrogate, a code point above U+10FFFF, a truncated sequence and a
  stray leading or continuation byte are then all excluded.
\<close>

definition is_scalar_value :: "nat \<Rightarrow> bool" where
  "is_scalar_value c \<longleftrightarrow> c \<le> 0x10FFFF \<and> (c < 0xD800 \<or> 0xDFFF < c)"

definition utf8_encode :: "nat \<Rightarrow> byte list" where
  "utf8_encode c =
     (if c < 0x80 then [of_nat c]
      else if c < 0x800 then [of_nat (0xC0 + c div 64), of_nat (0x80 + c mod 64)]
      else if c < 0x10000 then
        [of_nat (0xE0 + c div 4096), of_nat (0x80 + c div 64 mod 64), of_nat (0x80 + c mod 64)]
      else
        [of_nat (0xF0 + c div 262144), of_nat (0x80 + c div 4096 mod 64),
         of_nat (0x80 + c div 64 mod 64), of_nat (0x80 + c mod 64)])"

definition well_formed_utf8 :: "byte list \<Rightarrow> bool" where
  "well_formed_utf8 bs \<longleftrightarrow> (\<exists>cs. list_all is_scalar_value cs \<and> bs = concat (map utf8_encode cs))"

section \<open>Close payloads\<close>

record CloseFrame =
  code :: "16 word"
  message :: "byte list"
  lengthCF :: nat

text \<open>
  \<open>parseClosePayload src\<close> takes the payload \<open>[src, src + length)\<close> as a byte list.
  The null message of the default frame is the empty list.
\<close>

definition parseClosePayload :: "byte list \<Rightarrow> CloseFrame" where
  "parseClosePayload src =
     (if 2 \<le> length src then
        (let code0 = (word_of_le (take 2 src) :: 16 word);
             cf = \<lparr>code = cond_byte_swap 2 code0, message = drop 2 src, lengthCF = length src - 2\<rparr>
         in if code cf < 1000 \<or> code cf > 4999 \<or> (code cf > 1011 \<and> code cf < 4000) \<or>
               (code cf \<ge> 1004 \<and> code cf \<le> 1006) \<or> \<not> isValidUtf8 (message cf)
            then \<lparr>code = 1006, message = bytes_of_string ERR_INVALID_CLOSE_PAYLOAD,
                  lengthCF = length ERR_INVALID_CLOSE_PAYLOAD\<rparr>
            else cf)
      else \<lparr>code = 1005, message = [], lengthCF = 0\<rparr>)"

section \<open>Outbound frames\<close>

text \<open>\<open>size_t\<close> is a 64-bit word; its arithmetic wraps.\<close>

definition messageFrameSize :: "64 word \<Rightarrow> 64 word" where
  "messageFrameSize messageSize =
     (if messageSize < 126 then 2 + messageSize
      else if messageSize \<le> 0xFFFF then 4 + messageSize
      else 10 + messageSize)"

text \<open>
  \<open>formatMessage isServer src opCode reportedLength compressed fin random\<close>: \<open>src\<close> is the
  payload \<open>[src, src + length)\<close>, \<open>random\<close> the value \<^verbatim>\<open>rand()\<close> returns. The result
  is the bytes written to \<open>dst\<close>, from \<open>dst[0]\<close> on, and the returned \<open>messageLength\<close>.
  \<open>xor_mask\<close> is the loop that masks the copied payload on a client.
\<close>

definition xor_mask :: "byte list \<Rightarrow> byte list \<Rightarrow> byte list" where
  "xor_mask mask4 xs = map (\<lambda>i. (xs ! i) XOR (mask4 ! (i mod 4))) [0..<length xs]"

definition formatMessage ::
  "bool \<Rightarrow> byte list \<Rightarrow> byte \<Rightarrow> 64 word \<Rightarrow> bool \<Rightarrow> bool \<Rightarrow> 32 word \<Rightarrow> byte list \<times> 64 word" where
  "formatMessage isServer src opCode reportedLength compressed fin random =
     (let (headerLength, dst1, ext) =
            (if reportedLength < 126 then (2 :: 64 word, ucast reportedLength :: byte, [])
             else if reportedLength \<le> 0xFFFF then
               (4, 126, le_of_word 2 (cond_byte_swap 2 (ucast reportedLength :: 16 word)))
             else (10, 127, le_of_word 8 (cond_byte_swap 8 reportedLength)));
          dst0 = (if fin then 128 else 0) OR (if compressed \<and> opCode \<noteq> 0 then 64 else 0) OR opCode;
          mask4 = le_of_word 4 random
      in if isServer
         then (dst0 # dst1 # ext @ src, headerLength + of_nat (length src))
         else (dst0 # (dst1 OR 0x80) # ext @ mask4 @ xor_mask mask4 src,
               headerLength + 4 + of_nat (length src)))"

section \<open>The inbound parser\<close>

subsection \<open>Memory\<close>

text \<open>
  The receive buffer lives in a flat byte memory, addressed by integers, so that the
  bytes before \<open>src\<close> (where the spill is copied back) and after \<open>src + len\<close> (where
  the imprecise unmasking reads and writes) are part of the model. \<open>rd m p n\<close> is the
  byte string \<open>[p, p + n)\<close>; \<open>wr m p bs\<close> stores \<open>bs\<close> from \<open>p\<close> on.
\<close>

type_synonym memory = "int \<Rightarrow> byte"

definition rd :: "memory \<Rightarrow> int \<Rightarrow> nat \<Rightarrow> byte list" where
  "rd m p n = map (\<lambda>i. m (p + int i)) [0..<n]"

definition wr :: "memory \<Rightarrow> int \<Rightarrow> byte list \<Rightarrow> memory" where
  "wr m p bs = (\<lambda>a. if p \<le> a \<and> a < p + int (length bs) then bs ! nat (a - p) else m a)"

subsection \<open>Connection state, callbacks and events\<close>

text \<open>
  The source's parameter \<open>length\<close> is written \<open>len\<close>.
  \<open>WebSocketState\<close> joins the bit fields of \<open>State\<close> with \<open>remainingBytes\<close> and \<open>mask\<close>
  (here \<open>maskWS\<close>). \<open>spillLength\<close> is a 4-bit field, \<open>opStack\<close> a signed 2-bit field whose
  stored value is \<open>wrap2\<close> of the value assigned, \<open>remainingBytes\<close> an \<^verbatim>\<open>unsigned int\<close>.
  \<open>spill\<close> has \<open>LONG_MESSAGE_HEADER - 1\<close> bytes and is directly followed by the two bytes
  of \<open>opCode\<close>, so an index below 0 into \<open>opCode\<close> lands in \<open>spill\<close>.
\<close>

record WebSocketState =
  wantsHead :: bool
  spillLength :: nat
  opStack :: int
  lastFin :: bool
  spill :: "byte list"
  opCode :: "byte list"
  remainingBytes :: nat
  maskWS :: "byte list"

definition SHORT_MESSAGE_HEADER :: "bool \<Rightarrow> nat" where
  "SHORT_MESSAGE_HEADER isServer = (if isServer then 6 else 2)"

definition MEDIUM_MESSAGE_HEADER :: "bool \<Rightarrow> nat" where
  "MEDIUM_MESSAGE_HEADER isServer = (if isServer then 8 else 4)"

definition LONG_MESSAGE_HEADER :: "bool \<Rightarrow> nat" where
  "LONG_MESSAGE_HEADER isServer = (if isServer then 14 else 10)"

text \<open>
  The state the constructor builds. The arrays are not initialised by the constructor;
  \<open>init_state\<close> fills them with zeros, \<open>fresh_state\<close> admits any content.
\<close>

definition init_state :: "bool \<Rightarrow> WebSocketState" where
  "init_state isServer =
     \<lparr>wantsHead = True, spillLength = 0, opStack = - 1, lastFin = True,
      spill = replicate (LONG_MESSAGE_HEADER isServer - 1) 0, opCode = [0, 0],
      remainingBytes = 0, maskWS = replicate (if isServer then 4 else 1) 0\<rparr>"

definition fresh_state :: "bool \<Rightarrow> WebSocketState \<Rightarrow> bool" where
  "fresh_state isServer s \<longleftrightarrow>
     wantsHead s \<and> spillLength s = 0 \<and> opStack s = - 1 \<and> lastFin s \<and> remainingBytes s = 0 \<and>
     length (spill s) = LONG_MESSAGE_HEADER isServer - 1 \<and> length (opCode s) = 2 \<and>
     length (maskWS s) = (if isServer then 4 else 1)"

definition wrap2 :: "int \<Rightarrow> int" where
  "wrap2 i = (i + 2) mod 4 - 2"

definition opCode_at :: "WebSocketState \<Rightarrow> int \<Rightarrow> byte" where
  "opCode_at s i = (spill s @ opCode s) ! nat (int (length (spill s)) + i)"

definition opCode_upd :: "WebSocketState \<Rightarrow> int \<Rightarrow> byte \<Rightarrow> WebSocketState" where
  "opCode_upd s i v =
     (if 0 \<le> i then s\<lparr>opCode := (opCode s)[nat i := v]\<rparr>
      else s\<lparr>spill := (spill s)[nat (int (length (spill s)) + i) := v]\<rparr>)"

text \<open>
  The template parameter \<open>Impl\<close> and the macro \<^verbatim>\<open>LIBUS_RECV_BUFFER_LENGTH\<close> are not
  part of the source file; they are parameters of the model. A callback is a function of
  the arguments the parser passes: \<open>refusePayloadLength\<close> of the payload length,
  \<open>handleFragment\<close> of the bytes \<open>[data, data + len)\<close>, \<open>remainingBytes\<close>, the opcode and
  the FIN flag; \<open>setCompressed\<close> is its answer. The callbacks do not write to the state or
  to the buffer.
\<close>

record Impl =
  refusePayloadLength :: "nat \<Rightarrow> bool"
  setCompressed :: bool
  handleFragment :: "byte list \<Rightarrow> nat \<Rightarrow> byte \<Rightarrow> bool \<Rightarrow> bool"
  recvBufferLength :: nat

text \<open>
  The calls the parser makes are recorded in order: \<open>HandleFragment data remainingBytes
  opCode fin\<close>, and \<open>ForceClose s msg\<close> with the state \<open>s\<close> the callback is handed.
\<close>

datatype event =
  HandleFragment "byte list" nat byte bool
| ForceClose WebSocketState string

record parser =
  mem :: memory
  wState :: WebSocketState
  trace :: "event list"

definition emit :: "event \<Rightarrow> parser \<Rightarrow> parser" where
  "emit e p = p\<lparr>trace := trace p @ [e]\<rparr>"

subsection \<open>Header fields\<close>

definition isFin :: "memory \<Rightarrow> int \<Rightarrow> bool" where
  "isFin m frame \<longleftrightarrow> m frame AND 128 \<noteq> 0"

definition getOpCode :: "memory \<Rightarrow> int \<Rightarrow> byte" where
  "getOpCode m frame = m frame AND 15"

definition payloadLength :: "memory \<Rightarrow> int \<Rightarrow> byte" where
  "payloadLength m frame = m (frame + 1) AND 127"

definition rsv23 :: "memory \<Rightarrow> int \<Rightarrow> bool" where
  "rsv23 m frame \<longleftrightarrow> m frame AND 48 \<noteq> 0"

definition rsv1 :: "memory \<Rightarrow> int \<Rightarrow> bool" where
  "rsv1 m frame \<longleftrightarrow> m frame AND 64 \<noteq> 0"

subsection \<open>Unmasking\<close>

fun UnrolledXor :: "nat \<Rightarrow> memory \<Rightarrow> int \<Rightarrow> byte list \<Rightarrow> memory" where
  "UnrolledXor 0 m data mask4 = m"
| "UnrolledXor (Suc n) m data mask4 =
     (let m' = UnrolledXor n m data mask4
      in m'(data + int n := m' (data + int n) XOR mask4 ! (n mod 4)))"

text \<open>The loops of \<open>unmaskImprecise8\<close> and \<open>unmaskImprecise4\<close>, \<open>n\<close> blocks to go.\<close>

fun unmaskImprecise8_loop :: "int \<Rightarrow> memory \<Rightarrow> int \<Rightarrow> 64 word \<Rightarrow> nat \<Rightarrow> memory" where
  "unmaskImprecise8_loop DESTINATION m src mask64 0 = m"
| "unmaskImprecise8_loop DESTINATION m src mask64 (Suc n) =
     (let loaded = (word_of_le (rd m src 8) :: 64 word) XOR mask64;
          m' = wr m (src - DESTINATION) (le_of_word 8 loaded)
      in unmaskImprecise8_loop DESTINATION m' (src + 8) mask64 n)"

definition unmaskImprecise8 :: "int \<Rightarrow> memory \<Rightarrow> int \<Rightarrow> 64 word \<Rightarrow> nat \<Rightarrow> memory" where
  "unmaskImprecise8 DESTINATION m src mask64 len =
     unmaskImprecise8_loop DESTINATION m src mask64 (len div 8 + 1)"

fun unmaskImprecise4_loop :: "int \<Rightarrow> memory \<Rightarrow> int \<Rightarrow> 32 word \<Rightarrow> nat \<Rightarrow> memory" where
  "unmaskImprecise4_loop DESTINATION m src mask32 0 = m"
| "unmaskImprecise4_loop DESTINATION m src mask32 (Suc n) =
     (let loaded = (word_of_le (rd m src 4) :: 32 word) XOR mask32;
          m' = wr m (src - DESTINATION) (le_of_word 4 loaded)
      in unmaskImprecise4_loop DESTINATION m' (src + 4) mask32 n)"

definition unmaskImprecise4 :: "int \<Rightarrow> memory \<Rightarrow> int \<Rightarrow> 32 word \<Rightarrow> nat \<Rightarrow> memory" where
  "unmaskImprecise4 DESTINATION m src mask32 len =
     unmaskImprecise4_loop DESTINATION m src mask32 (len div 4 + 1)"

definition unmaskImpreciseCopyMask :: "nat \<Rightarrow> memory \<Rightarrow> int \<Rightarrow> nat \<Rightarrow> memory" where
  "unmaskImpreciseCopyMask HEADER_SIZE m src len =
     (if HEADER_SIZE \<noteq> 6 then
        unmaskImprecise8 (int HEADER_SIZE) m src (word_of_le (rd m (src - 4) 4 @ rd m (src - 4) 4)) len
      else
        unmaskImprecise4 (int HEADER_SIZE) m src (word_of_le (rd m (src - 4) 4)) len)"

definition rotateMask :: "nat \<Rightarrow> byte list \<Rightarrow> byte list" where
  "rotateMask offset mask4 =
     (let originalMask = [mask4 ! 0, mask4 ! 1, mask4 ! 2, mask4 ! 3]
      in mask4[(0 + offset) mod 4 := originalMask ! 0,
               (1 + offset) mod 4 := originalMask ! 1,
               (2 + offset) mod 4 := originalMask ! 2,
               (3 + offset) mod 4 := originalMask ! 3])"

function unmaskInplace :: "memory \<Rightarrow> int \<Rightarrow> int \<Rightarrow> byte list \<Rightarrow> memory" where
  "unmaskInplace m data stop mask4 =
     (if data < stop
      then unmaskInplace (wr m data (map (\<lambda>i. m (data + int i) XOR mask4 ! i) [0..<4])) (data + 4) stop mask4
      else m)"
  by pat_completeness auto
termination
  by (relation "measure (\<lambda>(m, data, stop, mask4). nat (stop - data))") auto

declare unmaskInplace.simps [simp del]

function unmaskAll_loop :: "nat \<Rightarrow> nat \<Rightarrow> memory \<Rightarrow> int \<Rightarrow> byte list \<Rightarrow> memory" where
  "unmaskAll_loop L i m data mask4 =
     (if i < L then unmaskAll_loop L (i + 16) (UnrolledXor 16 m (data + int i) mask4) data mask4
      else m)"
  by pat_completeness auto
termination
  by (relation "measure (\<lambda>(L, i, m, data, mask4). L - i)") auto

declare unmaskAll_loop.simps [simp del]

definition unmaskAll :: "nat \<Rightarrow> memory \<Rightarrow> int \<Rightarrow> byte list \<Rightarrow> memory" where
  "unmaskAll L m data mask4 = unmaskAll_loop L 0 m data mask4"

subsection \<open>One frame\<close>

text \<open>
  \<open>consumeMessage isServer impl MESSAGE_HEADER W payLength src len p\<close>. \<open>W\<close> is the
  modulus of the arithmetic on \<open>payLength\<close>: \<open>2 ^ 32\<close> for the 8- and 16-bit
  instances (promoted, then \<^verbatim>\<open>unsigned int\<close>), \<open>2 ^ 64\<close> for the 64-bit one. The
  result is the returned flag with the updated \<open>src\<close> and \<open>len\<close> (both passed by
  reference). In the branch that advances, the sum is at most \<open>len\<close>, so the
  subtraction from \<open>len\<close> does not wrap.
\<close>

definition consumeMessage ::
  "bool \<Rightarrow> Impl \<Rightarrow> nat \<Rightarrow> nat \<Rightarrow> nat \<Rightarrow> int \<Rightarrow> nat \<Rightarrow> parser \<Rightarrow> bool \<times> int \<times> nat \<times> parser" where
  "consumeMessage isServer impl MESSAGE_HEADER W payLength src len p =
     (let m = mem p; s = wState p; op = getOpCode m src in
      if op \<noteq> 0 \<and> (opStack s = 1 \<or> (\<not> lastFin s \<and> op < 2)) then
        (True, src, len, emit (ForceClose s ERR_PROTOCOL) p)
      else if op = 0 \<and> opStack s = - 1 then
        (True, src, len, emit (ForceClose s ERR_PROTOCOL) p)
      else
        let s1 = (if op \<noteq> 0
                  then opCode_upd (s\<lparr>opStack := wrap2 (opStack s + 1)\<rparr>) (wrap2 (opStack s + 1)) op
                  else s);
            s2 = s1\<lparr>lastFin := isFin m src\<rparr>
        in
        if refusePayloadLength impl payLength then
          (True, src, len, emit (ForceClose s2 ERR_TOO_BIG_MESSAGE) (p\<lparr>wState := s2\<rparr>))
        else if (payLength + MESSAGE_HEADER) mod W \<le> len then
          (let fin = isFin m src;
               m' = (if isServer
                     then unmaskImpreciseCopyMask MESSAGE_HEADER m (src + int MESSAGE_HEADER)
                            (payLength mod 2 ^ 32)
                     else m);
               data = (if isServer then rd m' src payLength
                       else rd m' (src + int MESSAGE_HEADER) payLength);
               op' = opCode_at s2 (opStack s2);
               p' = emit (HandleFragment data 0 op' fin) (p\<lparr>mem := m', wState := s2\<rparr>)
           in if handleFragment impl data 0 op' fin then (True, src, len, p')
              else
                let s3 = (if fin then s2\<lparr>opStack := wrap2 (opStack s2 - 1)\<rparr> else s2)
                in (False, src + int ((payLength + MESSAGE_HEADER) mod W),
                    len - (payLength + MESSAGE_HEADER) mod W,
                    p'\<lparr>wState := s3\<lparr>spillLength := 0\<rparr>\<rparr>))
        else
          (let s3 = s2\<lparr>spillLength := 0, wantsHead := False,
                      remainingBytes :=
                        nat ((int payLength - int len + int MESSAGE_HEADER) mod 2 ^ 32)\<rparr>;
               fin = isFin m src;
               mask4 = rd m (src + int MESSAGE_HEADER - 4) 4;
               m' = (if isServer
                     then unmaskImprecise8 0 m (src + int MESSAGE_HEADER) (word_of_le (mask4 @ mask4)) len
                     else m);
               s4 = (if isServer
                     then s3\<lparr>maskWS := rotateMask (4 - (len - MESSAGE_HEADER) mod 4) mask4\<rparr>
                     else s3);
               data = rd m' (src + int MESSAGE_HEADER) (len - MESSAGE_HEADER)
           in (True, src, len,
               emit (HandleFragment data (remainingBytes s4) (opCode_at s4 (opStack s4)) fin)
                 (p\<lparr>mem := m', wState := s4\<rparr>))))"

subsection \<open>The rest of a frame whose body was split\<close>

definition consumeContinuation ::
  "bool \<Rightarrow> Impl \<Rightarrow> int \<Rightarrow> nat \<Rightarrow> parser \<Rightarrow> bool \<times> int \<times> nat \<times> parser" where
  "consumeContinuation isServer impl src len p =
     (let m = mem p; s = wState p in
      if remainingBytes s \<le> len then
        (let n = remainingBytes s div 4;
             m1 = (if isServer then unmaskInplace m src (src + int (n * 4)) (maskWS s) else m);
             m' = (if isServer
                   then wr m1 (src + int (n * 4))
                          (map (\<lambda>i. m1 (src + int (n * 4 + i)) XOR maskWS s ! i)
                             [0..<remainingBytes s mod 4])
                   else m1);
             data = rd m' src (remainingBytes s);
             op = opCode_at s (opStack s);
             p' = emit (HandleFragment data 0 op (lastFin s)) (p\<lparr>mem := m'\<rparr>)
         in if handleFragment impl data 0 op (lastFin s) then (False, src, len, p')
            else
              let s1 = (if lastFin s then s\<lparr>opStack := wrap2 (opStack s - 1)\<rparr> else s)
              in (True, src + int (remainingBytes s), len - remainingBytes s,
                  p'\<lparr>wState := s1\<lparr>wantsHead := True\<rparr>\<rparr>))
      else
        (let m' = (if isServer \<and> take 4 (maskWS s) \<noteq> [0, 0, 0, 0]
                   then (if recvBufferLength impl = len
                         then unmaskAll (recvBufferLength impl) m src (maskWS s)
                         else unmaskInplace m src (src + int ((len div 4 + 1) * 4)) (maskWS s))
                   else m);
             s1 = s\<lparr>remainingBytes := remainingBytes s - len\<rparr>;
             data = rd m' src len;
             op = opCode_at s1 (opStack s1);
             p' = emit (HandleFragment data (remainingBytes s1) op (lastFin s1))
                    (p\<lparr>mem := m', wState := s1\<rparr>)
         in if handleFragment impl data (remainingBytes s1) op (lastFin s1)
            then (False, src, len, p')
            else (False, src, len,
                  if isServer \<and> len mod 4 \<noteq> 0
                  then p'\<lparr>wState := s1\<lparr>maskWS := rotateMask (4 - len mod 4) (maskWS s1)\<rparr>\<rparr>
                  else p')))"

subsection \<open>The header loop and the entry point\<close>

text \<open>
  \<open>spillRest\<close> is the code after the loop: what is left of the buffer is copied to
  \<open>spill\<close>. The loop is left with \<open>len < LONG_MESSAGE_HEADER\<close>, so the copy fits.
\<close>

definition spillRest :: "int \<Rightarrow> nat \<Rightarrow> parser \<Rightarrow> parser" where
  "spillRest src len p =
     (if len \<noteq> 0
      then p\<lparr>wState := (wState p)\<lparr>spill := rd (mem p) src len @ drop len (spill (wState p)),
                                  spillLength := len mod 16\<rparr>\<rparr>
      else p)"

text \<open>
  \<open>parseNext\<close> is the loop at the label of that name. When the 64-bit sum of payload
  length and header size wraps to 0 the loop does not advance, so the model is a partial
  function: \<open>None\<close> stands for a loop that never ends.
\<close>

partial_function (option) parseNext ::
  "bool \<Rightarrow> Impl \<Rightarrow> int \<Rightarrow> nat \<Rightarrow> parser \<Rightarrow> parser option" where
  "parseNext isServer impl src len p =
     (if SHORT_MESSAGE_HEADER isServer \<le> len then
        (let m = mem p in
         if (rsv1 m src \<and> \<not> setCompressed impl) \<or> rsv23 m src \<or>
            (getOpCode m src > 2 \<and> getOpCode m src < 8) \<or> getOpCode m src > 10 \<or>
            (getOpCode m src > 2 \<and> (\<not> isFin m src \<or> payloadLength m src > 125))
         then Some (emit (ForceClose (wState p) ERR_PROTOCOL) p)
         else if payloadLength m src < 126 then
           (case consumeMessage isServer impl (SHORT_MESSAGE_HEADER isServer) (2 ^ 32)
                   (unat (payloadLength m src)) src len p of
              (stop, src', len', p') \<Rightarrow>
                if stop then Some p' else parseNext isServer impl src' len' p')
         else if payloadLength m src = 126 then
           (if len < MEDIUM_MESSAGE_HEADER isServer then Some (spillRest src len p)
            else
              (case consumeMessage isServer impl (MEDIUM_MESSAGE_HEADER isServer) (2 ^ 32)
                      (unat (cond_byte_swap 2 (word_of_le (rd m (src + 2) 2) :: 16 word)))
                      src len p of
                 (stop, src', len', p') \<Rightarrow>
                   if stop then Some p' else parseNext isServer impl src' len' p'))
         else if len < LONG_MESSAGE_HEADER isServer then Some (spillRest src len p)
         else
           (case consumeMessage isServer impl (LONG_MESSAGE_HEADER isServer) (2 ^ 64)
                   (unat (cond_byte_swap 8 (word_of_le (rd m (src + 2) 8) :: 64 word)))
                   src len p of
              (stop, src', len', p') \<Rightarrow>
                if stop then Some p' else parseNext isServer impl src' len' p'))
      else Some (spillRest src len p))"

declare parseNext.simps [code]

text \<open>
  \<open>consume isServer impl src len p\<close>: the transport has stored the received bytes at
  \<open>[src, src + len)\<close> of \<open>mem p\<close>; \<open>len\<close> is an \<^verbatim>\<open>unsigned int\<close>.
\<close>

definition consume :: "bool \<Rightarrow> Impl \<Rightarrow> int \<Rightarrow> nat \<Rightarrow> parser \<Rightarrow> parser option" where
  "consume isServer impl src len p =
     (let s = wState p;
          src1 = (if spillLength s \<noteq> 0 then src - int (spillLength s) else src);
          length1 = (if spillLength s \<noteq> 0 then (len + spillLength s) mod 2 ^ 32 else len);
          p1 = (if spillLength s \<noteq> 0
                then p\<lparr>mem := wr (mem p) src1 (take (spillLength s) (spill s))\<rparr>
                else p)
      in if wantsHead s then parseNext isServer impl src1 length1 p1
         else
           (case consumeContinuation isServer impl src1 length1 p1 of
              (again, src2, length2, p2) \<Rightarrow>
                if again then parseNext isServer impl src2 length2 p2 else Some p2))"

subsection \<open>Feeding a connection\<close>

text \<open>
  The owner of a connection stores each chunk it receives at the start \<open>base\<close> of its
  receive buffer and calls \<open>consume\<close>. A call of \<open>forceClose\<close>, and a \<open>handleFragment\<close>
  that returns true, close the connection: no later chunk is fed.
\<close>

fun closing :: "Impl \<Rightarrow> event \<Rightarrow> bool" where
  "closing impl (ForceClose s msg) = True"
| "closing impl (HandleFragment data remaining op fin) = handleFragment impl data remaining op fin"

fun feed :: "bool \<Rightarrow> Impl \<Rightarrow> int \<Rightarrow> parser \<Rightarrow> byte list list \<Rightarrow> parser option" where
  "feed isServer impl base p [] = Some p"
| "feed isServer impl base p (c # cs) =
     (case consume isServer impl base (length c) (p\<lparr>mem := wr (mem p) base c\<rparr>) of
        None \<Rightarrow> None
      | Some p' \<Rightarrow>
          if list_ex (closing impl) (trace p') then Some p'
          else feed isServer impl base p' cs)"

text \<open>
  What the handler has been given, call by call: the bytes of each fragment with the
  opcode and FIN flag of their call, and a mark where a call ends a frame
  (\<open>remainingBytes = 0\<close>). Two traces with the same \<open>fragments\<close> have delivered the same
  frames with the same opcodes, FIN flags and payload bytes.
\<close>

datatype delivered = Payload byte bool byte | FrameEnd byte bool

fun fragments_of :: "event \<Rightarrow> delivered list" where
  "fragments_of (HandleFragment data remaining op fin) =
     map (Payload op fin) data @ (if remaining = 0 then [FrameEnd op fin] else [])"
| "fragments_of (ForceClose s msg) = []"

definition fragments :: "event list \<Rightarrow> delivered list" where
  "fragments tr = concat (map fragments_of tr)"

fun ev_opCode :: "event \<Rightarrow> byte option" where
  "ev_opCode (HandleFragment data remaining op fin) = Some op"
| "ev_opCode (ForceClose s msg) = None"

fun ev_fin :: "event \<Rightarrow> bool option" where
  "ev_fin (HandleFragment data remaining op fin) = Some fin"
| "ev_fin (ForceClose s msg) = None"

fun ev_data :: "event \<Rightarrow> byte list" where
  "ev_data (HandleFragment data remaining op fin) = data"
| "ev_data (ForceClose s msg) = []"

text \<open>
  A set of callbacks that accepts every payload length, has not negotiated compression
  and never asks to stop, and a connection in its initial state over a zeroed memory.
\<close>

definition accept_all :: Impl where
  "accept_all = \<lparr>refusePayloadLength = (\<lambda>n. False), setCompressed = False,
                 handleFragment = (\<lambda>data remaining op fin. False), recvBufferLength = 524288\<rparr>"

definition start :: "bool \<Rightarrow> parser" where
  "start isServer = \<lparr>mem = (\<lambda>a. 0), wState = init_state isServer, trace = []\<rparr>"

text \<open>Callbacks that refuse a payload of more than 100 bytes, and a client buffer that
  holds the header of an unfinished Binary frame of 256 bytes.\<close>

definition refuse_large :: Impl where
  "refuse_large = accept_all\<lparr>refusePayloadLength := (\<lambda>n. 100 < n)\<rparr>"

definition refused_example :: parser where
  "refused_example = (start False)\<lparr>mem := wr (\<lambda>a. 0) 100 [0x02, 0x7E, 0x01, 0x00]\<rparr>"

text \<open>The header size \<open>formatMessage\<close> is expected to choose for a reported length.\<close>

definition headerLength :: "64 word \<Rightarrow> nat" where
  "headerLength reportedLength =
     (if reportedLength < 126 then 2 else if reportedLength \<le> 0xFFFF then 4 else 10)"

section \<open>The move-only invocable\<close>

text \<open>
  \<open>any_invocable_impl\<close> objects live in a store indexed by their addresses, so that two
  references may name the same object. The members \<open>storage_\<close>, \<open>handle_\<close> and \<open>call_\<close>
  are the fields \<open>storage_f\<close>, \<open>handle_f\<close> and \<open>call_f\<close>. A \<open>storage\<close> holds a small
  callable in place or the pointer to a large one on the heap; \<open>handle_\<close> and \<open>call_\<close>
  point to the functions of \<open>small_handler\<close> or of \<open>large_handler\<close>, and \<open>None\<close> is the
  null pointer. Moving a small callable moves its value; a callable is a value of the
  type \<open>'f\<close>.
\<close>

datatype 'f storage = Uninit | Inline 'f | Pointer nat

datatype handler = small_handler | large_handler

record 'f any_invocable_impl =
  storage_f :: "'f storage"
  handle_f :: "handler option"
  call_f :: "handler option"

record 'f world =
  objs :: "nat \<Rightarrow> 'f any_invocable_impl"
  heap :: "nat \<Rightarrow> 'f option"

definition empty_impl :: "'f any_invocable_impl" where
  "empty_impl = \<lparr>storage_f = Uninit, handle_f = None, call_f = None\<rparr>"

definition set_storage :: "nat \<Rightarrow> 'f storage \<Rightarrow> 'f world \<Rightarrow> 'f world" where
  "set_storage a st w = w\<lparr>objs := (objs w)(a := (objs w a)\<lparr>storage_f := st\<rparr>)\<rparr>"

definition set_handle :: "nat \<Rightarrow> handler option \<Rightarrow> 'f world \<Rightarrow> 'f world" where
  "set_handle a h w = w\<lparr>objs := (objs w)(a := (objs w a)\<lparr>handle_f := h\<rparr>)\<rparr>"

definition set_call :: "nat \<Rightarrow> handler option \<Rightarrow> 'f world \<Rightarrow> 'f world" where
  "set_call a h w = w\<lparr>objs := (objs w)(a := (objs w a)\<lparr>call_f := h\<rparr>)\<rparr>"

text \<open>
  \<open>handler_move h src\<close> is \<open>handle(action::move, dst, src)\<close> of the handler \<open>h\<close>: the new
  contents of \<open>dst\<close> and of \<open>src\<close>. \<open>handler_destroy\<close> is \<open>handle(action::destroy, s)\<close>.
\<close>

fun handler_move :: "handler \<Rightarrow> 'f storage \<Rightarrow> 'f storage \<times> 'f storage" where
  "handler_move small_handler (Inline f) = (Inline f, Uninit)"
| "handler_move small_handler src = (Uninit, Uninit)"
| "handler_move large_handler src = (src, src)"

fun handler_destroy :: "handler \<Rightarrow> 'f storage \<Rightarrow> (nat \<Rightarrow> 'f option) \<Rightarrow> 'f storage \<times> (nat \<Rightarrow> 'f option)" where
  "handler_destroy small_handler st hp = (Uninit, hp)"
| "handler_destroy large_handler (Pointer q) hp = (Pointer q, hp(q := None))"
| "handler_destroy large_handler st hp = (st, hp)"

definition handle_move_at :: "handler \<Rightarrow> nat \<Rightarrow> nat \<Rightarrow> 'f world \<Rightarrow> 'f world" where
  "handle_move_at h current other w =
     (let (dst, src) = handler_move h (storage_f (objs w other))
      in set_storage current dst (set_storage other src w))"

text \<open>
  The move constructor builds the object at the address \<open>this\<close>. \<open>swap_impl tmp this rhs\<close>
  is \<open>this->swap(rhs)\<close>, with the local \<open>storage tmp\<close> at the address \<open>tmp\<close>; its branch
  \<open>rhs.swap(*this)\<close> ends in the last branch of \<open>swap\<close> with the roles exchanged, which
  is \<open>swap_take\<close>. \<open>move_assign tmp tmp' this rhs\<close> is the move assignment
  \<open>any_invocable_impl{std::move(rhs)}.swap(*this)\<close>: the temporary is built at \<open>tmp\<close>,
  swapped with \<open>*this\<close> and destroyed.
\<close>

definition move_ctor :: "nat \<Rightarrow> nat \<Rightarrow> 'f world \<Rightarrow> 'f world" where
  "move_ctor this rhs w =
     (let w0 = w\<lparr>objs := (objs w)(this := empty_impl)\<rparr> in
      case handle_f (objs w0 rhs) of
        None \<Rightarrow> w0
      | Some h \<Rightarrow>
          set_handle rhs None
            (set_call this (call_f (objs w0 rhs))
               (handle_move_at h this rhs (set_handle this (Some h) w0))))"

definition destroy_impl :: "nat \<Rightarrow> 'f world \<Rightarrow> 'f world" where
  "destroy_impl this w =
     (case handle_f (objs w this) of
        None \<Rightarrow> w
      | Some h \<Rightarrow>
          (let (st, hp) = handler_destroy h (storage_f (objs w this)) (heap w)
           in set_handle this None ((set_storage this st w)\<lparr>heap := hp\<rparr>)))"

definition swap_take :: "nat \<Rightarrow> nat \<Rightarrow> handler \<Rightarrow> 'f world \<Rightarrow> 'f world" where
  "swap_take this rhs h w =
     set_handle rhs None
       (set_call this (call_f (objs w rhs))
          (set_handle this (Some h) (handle_move_at h this rhs w)))"

definition swap_impl :: "nat \<Rightarrow> nat \<Rightarrow> nat \<Rightarrow> 'f world \<Rightarrow> 'f world" where
  "swap_impl tmp this rhs w =
     (case handle_f (objs w this) of
        Some h \<Rightarrow>
          (case handle_f (objs w rhs) of
             Some h' \<Rightarrow>
               (let w1 = handle_move_at h tmp this (set_storage tmp Uninit w);
                    w2 = handle_move_at h' this rhs w1;
                    w3 = handle_move_at h rhs tmp w2;
                    c = call_f (objs w3 this); c' = call_f (objs w3 rhs)
                in set_call rhs c (set_call this c'
                     (set_handle rhs (Some h) (set_handle this (Some h') w3))))
           | None \<Rightarrow> swap_take rhs this h w)
      | None \<Rightarrow>
          (case handle_f (objs w rhs) of
             Some h' \<Rightarrow> swap_take this rhs h' w
           | None \<Rightarrow> w))"

definition move_assign :: "nat \<Rightarrow> nat \<Rightarrow> nat \<Rightarrow> nat \<Rightarrow> 'f world \<Rightarrow> 'f world" where
  "move_assign tmp tmp' this rhs w =
     destroy_impl tmp (swap_impl tmp' tmp this (move_ctor tmp rhs w))"

definition operator_bool :: "'f any_invocable_impl \<Rightarrow> bool" where
  "operator_bool f \<longleftrightarrow> handle_f f \<noteq> None"

definition eq_nullptr :: "'f any_invocable_impl \<Rightarrow> bool" where
  "eq_nullptr f \<longleftrightarrow> \<not> operator_bool f"

text \<open>
  \<open>handler_call h s\<close> is \<open>call\<close> of the handler \<open>h\<close> on the storage \<open>s\<close>: the callable it
  invokes, the object in the buffer for a small handler and the object \<open>ptr_\<close> points to
  for a large one; \<open>None\<close> when there is no such object. \<open>call_impl w this\<close> is the member
  \<open>call\<close>, which invokes \<open>call_(storage_, args...)\<close>; \<open>None\<close> also stands for the call
  through a null \<open>call_\<close>.
\<close>

fun handler_call :: "handler \<Rightarrow> 'f storage \<Rightarrow> (nat \<Rightarrow> 'f option) \<Rightarrow> 'f option" where
  "handler_call small_handler (Inline f) hp = Some f"
| "handler_call small_handler st hp = None"
| "handler_call large_handler (Pointer q) hp = hp q"
| "handler_call large_handler st hp = None"

definition call_impl :: "'f world \<Rightarrow> nat \<Rightarrow> 'f option" where
  "call_impl w this =
     (case call_f (objs w this) of
        None \<Rightarrow> None
      | Some c \<Rightarrow> handler_call c (storage_f (objs w this)) (heap w))"

text \<open>
  \<open>holds w a f\<close>: the object at \<open>a\<close> is in the state \<open>create\<close> leaves for the callable
  \<open>f\<close>: \<open>handle_\<close> and \<open>call_\<close> are the functions of one handler, and \<open>storage_\<close> is what
  that handler has created for \<open>f\<close>, the callable in place or the pointer to it on the
  heap. \<open>separate w a b\<close>: the objects at \<open>a\<close> and \<open>b\<close> do not own the same heap cell.
\<close>

definition holds :: "'f world \<Rightarrow> nat \<Rightarrow> 'f \<Rightarrow> bool" where
  "holds w a f \<longleftrightarrow>
     (case handle_f (objs w a) of
        None \<Rightarrow> False
      | Some h \<Rightarrow>
          call_f (objs w a) = Some h \<and>
          (case h of
             small_handler \<Rightarrow> storage_f (objs w a) = Inline f
           | large_handler \<Rightarrow>
               (case storage_f (objs w a) of Pointer q \<Rightarrow> heap w q = Some f | _ \<Rightarrow> False)))"

definition separate :: "'f world \<Rightarrow> nat \<Rightarrow> nat \<Rightarrow> bool" where
  "separate w a b \<longleftrightarrow>
     \<not> (handle_f (objs w a) = Some large_handler \<and> handle_f (objs w b) = Some large_handler \<and>
        storage_f (objs w a) = storage_f (objs w b))"


definition one_callable :: "nat world" where
  "one_callable = \<lparr>objs = (\<lambda>a. empty_impl)(1 := \<lparr>storage_f = Inline 7, handle_f = Some small_handler,
                                                   call_f = Some small_handler\<rparr>),
                   heap = (\<lambda>q. None)\<rparr>"

section \<open>Invariants\<close>

text \<open>What holds of the fragmentation fields between the steps of the parser.\<close>

definition opStack_ok :: "WebSocketState \<Rightarrow> bool" where
  "opStack_ok s \<longleftrightarrow>
     length (opCode s) = 2 \<and> - 1 \<le> opStack s \<and> opStack s \<le> 1 \<and> (wantsHead s \<or> 0 \<le> opStack s)"

text \<open>
  The grammar of RFC 3629, section 4, on byte values. It stands between the validator
  and the reference notion \<open>well_formed_utf8\<close> in the proofs: a byte below \<open>0x80\<close>; a
  leading byte \<open>C2..DF\<close> with one continuation byte; \<open>E0..EF\<close> with two, the first at
  least \<open>A0\<close> after \<open>E0\<close> and below \<open>A0\<close> after \<open>ED\<close>; \<open>F0..F4\<close> with three, the first
  at least \<open>90\<close> after \<open>F0\<close> and below \<open>90\<close> after \<open>F4\<close>.
\<close>

definition is_cont :: "byte \<Rightarrow> bool" where
  "is_cont b \<longleftrightarrow> 0x80 \<le> unat b \<and> unat b < 0xC0"

fun utf8_ok :: "byte list \<Rightarrow> bool" where
  "utf8_ok [] = True"
| "utf8_ok (b # bs) =
     (if unat b < 0x80 then utf8_ok bs
      else if 0xC2 \<le> unat b \<and> unat b < 0xE0 then
        (case bs of b1 # r \<Rightarrow> is_cont b1 \<and> utf8_ok r | _ \<Rightarrow> False)
      else if 0xE0 \<le> unat b \<and> unat b < 0xF0 then
        (case bs of
           b1 # b2 # r \<Rightarrow>
             is_cont b1 \<and> is_cont b2 \<and> (unat b = 0xE0 \<longrightarrow> 0xA0 \<le> unat b1) \<and>
             (unat b = 0xED \<longrightarrow> unat b1 < 0xA0) \<and> utf8_ok r
         | _ \<Rightarrow> False)
      else if 0xF0 \<le> unat b \<and> unat b < 0xF5 then
        (case bs of
           b1 # b2 # b3 # r \<Rightarrow>
             is_cont b1 \<and> is_cont b2 \<and> is_cont b3 \<and> (unat b = 0xF0 \<longrightarrow> 0x90 \<le> unat b1) \<and>
             (unat b = 0xF4 \<longrightarrow> unat b1 < 0x90) \<and> utf8_ok r
         | _ \<Rightarrow> False)
      else False)"

section \<open>Concrete runs\<close>

lemmas model_defs = consumeMessage_def consumeContinuation_def consume_def spillRest_def
  getOpCode_def isFin_def payloadLength_def rsv1_def rsv23_def wr_def rd_def emit_def
  accept_all_def start_def init_state_def opCode_at_def opCode_upd_def wrap2_def
  SHORT_MESSAGE_HEADER_def MEDIUM_MESSAGE_HEADER_def LONG_MESSAGE_HEADER_def
  TEXT_def CONTINUATION_def BINARY_def PING_def bytes_of_string_def

text \<open>
  C5 (as stated): a client fed \<open>01 03 48 65 6C\<close> and then \<open>80 02 6C 6F\<close> from the initial
  state would call \<open>handleFragment\<close> with the opcodes Text and then Continuation. The
  opcodes the parser passes are not these.
\<close>

theorem fragmented_text_opcodes_counterexample:
  "map_option (map ev_opCode \<circ> trace)
     (feed False accept_all 100 (start False) [[0x01, 0x03, 0x48, 0x65, 0x6C], [0x80, 0x02, 0x6C, 0x6F]])
   \<noteq> Some [Some TEXT, Some CONTINUATION]"
  by (simp add: model_defs upt_rec nth_append parseNext.simps)

text \<open>
  C5 (amended): the run makes exactly two \<open>handleFragment\<close> calls, the first with FIN = 0
  and the second with FIN = 1, both with opcode Text (the opcode remembered in \<open>opCode\<close>
  for the message being continued); the payloads are \<open>Hel\<close> and \<open>lo\<close>, and \<open>opStack\<close> is
  \<open>-1\<close> afterwards.
\<close>

theorem fragmented_text_run:
  "map_option (\<lambda>p. (trace p, opStack (wState p)))
     (feed False accept_all 100 (start False) [[0x01, 0x03, 0x48, 0x65, 0x6C], [0x80, 0x02, 0x6C, 0x6F]])
   = Some ([HandleFragment (bytes_of_string ''Hel'') 0 TEXT False,
            HandleFragment (bytes_of_string ''lo'') 0 TEXT True], - 1)"
  by (simp add: model_defs upt_rec nth_append parseNext.simps)

text \<open>
  C3: a Text or Binary frame whose header is consumed while \<open>lastFin\<close> is false is to be
  answered with \<open>forceClose(ERR_PROTOCOL)\<close> and no \<open>handleFragment\<close> call. For a Binary
  frame the parser does not do so: after the unfinished Text frame \<open>01 01 41\<close>, the
  Binary frame \<open>82 01 42\<close> is handed to \<open>handleFragment\<close> and no \<open>forceClose\<close> is made.
  The test in \<open>consumeMessage\<close> is \<open>getOpCode(src) < 2\<close>, which only Text satisfies.
\<close>

theorem binary_inside_unfinished_message_accepted:
  "map_option trace
     (feed False accept_all 100 (start False) [[0x01, 0x01, 0x41], [0x82, 0x01, 0x42]])
   = Some [HandleFragment [0x41] 0 TEXT False, HandleFragment [0x42] 0 BINARY True]"
  by (simp add: model_defs Let_def upt_rec nth_append parseNext.simps)

text \<open>The sibling case: a Text frame at the same place is rejected.\<close>

lemma text_inside_unfinished_message_rejected:
  "map_option (map ev_opCode \<circ> trace)
     (feed False accept_all 100 (start False) [[0x01, 0x01, 0x41], [0x81, 0x01, 0x42]])
   = Some [Some TEXT, None]"
  by (simp add: model_defs Let_def upt_rec nth_append parseNext.simps)

section \<open>Properties of one frame\<close>

lemma opCode_at_nonneg: "0 \<le> i \<Longrightarrow> opCode_at s i = opCode s ! nat i"
  by (simp add: opCode_at_def nth_append nat_add_distrib)

text \<open>
  C9: when \<open>refusePayloadLength\<close> rejects a frame that has passed the fragmentation
  checks, \<open>consumeMessage\<close> returns true after a single \<open>forceClose(ERR_TOO_BIG_MESSAGE)\<close>,
  and the state handed to that call, which is also the state left behind, already
  records the frame: \<open>lastFin\<close> is the frame's FIN bit and, for a frame that is not a
  Continuation, \<open>opStack\<close> has been incremented and \<open>opCode[opStack]\<close> is the frame's
  opcode. The buffer, \<open>src\<close> and \<open>length\<close> are unchanged.
\<close>

theorem refused_frame_recorded:
  assumes refuse: "refusePayloadLength impl payLength"
    and ok1: "\<not> (getOpCode (mem p) src \<noteq> 0 \<and>
                 (opStack (wState p) = 1 \<or> (\<not> lastFin (wState p) \<and> getOpCode (mem p) src < 2)))"
    and ok2: "\<not> (getOpCode (mem p) src = 0 \<and> opStack (wState p) = - 1)"
    and stk: "- 1 \<le> opStack (wState p)" "opStack (wState p) \<le> 1"
    and ops: "length (opCode (wState p)) = 2"
  shows "case consumeMessage isServer impl MESSAGE_HEADER W payLength src len p of
           (stop, src', len', p') \<Rightarrow>
             stop \<and> src' = src \<and> len' = len \<and> mem p' = mem p \<and>
             trace p' = trace p @ [ForceClose (wState p') ERR_TOO_BIG_MESSAGE] \<and>
             lastFin (wState p') = isFin (mem p) src \<and>
             (if getOpCode (mem p) src \<noteq> 0
              then opStack (wState p') = opStack (wState p) + 1 \<and>
                   opCode_at (wState p') (opStack (wState p')) = getOpCode (mem p) src
              else opStack (wState p') = opStack (wState p) \<and>
                   opCode (wState p') = opCode (wState p))"
proof (cases "getOpCode (mem p) src = 0")
  case True
  then show ?thesis using assms
    by (simp add: consumeMessage_def Let_def emit_def)
next
  case False
  with ok1 stk have "opStack (wState p) = - 1 \<or> opStack (wState p) = 0" by auto
  then show ?thesis using False assms
    by (auto simp add: consumeMessage_def Let_def emit_def opCode_at_nonneg opCode_upd_def wrap2_def)
qed

theorem refused_frame_recorded_witness:
  "refusePayloadLength refuse_large 256 \<and>
   getOpCode (mem refused_example) 100 = BINARY \<and>
   opStack (wState refused_example) = - 1 \<and> lastFin (wState refused_example) \<and>
   (case consumeMessage False refuse_large 4 (2 ^ 32) 256 100 4 refused_example of
      (stop, src', len', p') \<Rightarrow>
        stop \<and> trace p' = [ForceClose (wState p') ERR_TOO_BIG_MESSAGE] \<and>
        \<not> lastFin (wState p') \<and> opStack (wState p') = 0 \<and>
        opCode_at (wState p') (opStack (wState p')) = BINARY)"
proof -
  have h1: "refusePayloadLength refuse_large 256"
    by (simp add: refuse_large_def accept_all_def)
  have h2: "getOpCode (mem refused_example) 100 = BINARY"
    by (simp add: refused_example_def model_defs)
  have h3: "opStack (wState refused_example) = - 1" "lastFin (wState refused_example)"
    "length (opCode (wState refused_example)) = 2" "trace refused_example = []"
    "\<not> isFin (mem refused_example) 100"
    by (simp_all add: refused_example_def model_defs)
  have "BINARY \<noteq> 0" "\<not> BINARY < 2" by (simp_all add: BINARY_def)
  with refused_frame_recorded [where impl = refuse_large and payLength = 256 and src = 100
      and p = refused_example and isServer = False and MESSAGE_HEADER = 4 and W = "2 ^ 32"
      and len = 4] h1 h2 h3
  show ?thesis by (auto split: prod.splits)
qed

section \<open>Words and bytes\<close>

lemma length_le_of_word [simp]: "length (le_of_word n w) = n"
  by (simp add: le_of_word_def)

lemma bit_word_of_le:
  "bit (word_of_le bs :: 'a::len word) n \<longleftrightarrow>
     n < LENGTH('a) \<and> n div 8 < length bs \<and> bit (bs ! (n div 8)) (n mod 8)"
  using bit_horner_sum_uint_exp_iff [of bs n]
  by (simp add: word_of_le_def word_rcat_def bit_word_of_int_iff)

lemma le_of_word_xor:
  "le_of_word n (a XOR b) = map2 (XOR) (le_of_word n a) (le_of_word n b)"
  by (simp add: le_of_word_def map2_map_map unsigned_xor_eq)

lemma le_of_word_of_le:
  "8 * length bs \<le> LENGTH('a) \<Longrightarrow> le_of_word (length bs) (word_of_le bs :: 'a::len word) = bs"
  apply (rule nth_equalityI)
   apply simp
  apply (rule bit_word_eqI)
  apply (auto simp add: le_of_word_def bit_ucast_iff bit_drop_bit_eq bit_word_of_le)
  done

section \<open>Close payloads and outbound frames\<close>

lemma be16_aux:
  "unat (word_of_int (uint (b::byte) + 256 * uint (a::byte)) :: 16 word) = 256 * unat a + unat b"
proof -
  have "(word_of_int (uint b + 256 * uint a) :: 16 word) = of_nat (unat b + 256 * unat a)"
    by simp
  moreover have "unat b < 256" "unat a < 256"
    using unsigned_less [of a, where 'a = nat] unsigned_less [of b, where 'a = nat] by simp_all
  ultimately show ?thesis
    by (simp only: unat_of_nat) simp
qed

lemma be16:
  "unat (cond_byte_swap 2 (word_of_le [a, b] :: 16 word)) = 256 * unat a + unat b"
proof -
  have "le_of_word 2 (word_of_le [a, b] :: 16 word) = [a, b]"
    using le_of_word_of_le [of "[a, b]", where 'a = 16] by (simp add: numeral_2_eq_2)
  then have "cond_byte_swap 2 (word_of_le [a, b] :: 16 word) = word_of_int (uint b + 256 * uint a)"
    by (simp add: cond_byte_swap_def word_of_le_def word_rcat_def)
  then show ?thesis by (simp only: be16_aux)
qed

text \<open>
  C6: \<open>parseClosePayload\<close> returns the code 1005 with an empty message when the payload
  has fewer than 2 bytes. Otherwise the code is the big-endian value of the first two
  bytes and the reason is the rest; the result is the code 1006 with
  \<open>ERR_INVALID_CLOSE_PAYLOAD\<close> exactly when the code is below 1000, above 4999, from 1012
  to 3999, from 1004 to 1006, or the reason is rejected by \<open>isValidUtf8\<close>, and it is the
  code with the reason otherwise.
\<close>

theorem parseClosePayload_spec:
  "parseClosePayload src =
    (if length src < 2 then \<lparr>code = 1005, message = [], lengthCF = 0\<rparr>
     else if 256 * unat (src ! 0) + unat (src ! 1) < 1000 \<or>
             4999 < 256 * unat (src ! 0) + unat (src ! 1) \<or>
             (1012 \<le> 256 * unat (src ! 0) + unat (src ! 1) \<and>
              256 * unat (src ! 0) + unat (src ! 1) \<le> 3999) \<or>
             (1004 \<le> 256 * unat (src ! 0) + unat (src ! 1) \<and>
              256 * unat (src ! 0) + unat (src ! 1) \<le> 1006) \<or>
             \<not> isValidUtf8 (drop 2 src)
          then \<lparr>code = 1006, message = bytes_of_string ERR_INVALID_CLOSE_PAYLOAD,
                lengthCF = length ERR_INVALID_CLOSE_PAYLOAD\<rparr>
          else \<lparr>code = of_nat (256 * unat (src ! 0) + unat (src ! 1)), message = drop 2 src,
                lengthCF = length src - 2\<rparr>)"
proof (cases "length src < 2")
  case True
  then show ?thesis by (simp add: parseClosePayload_def)
next
  case False
  then have t: "take 2 src = [src ! 0, src ! 1]"
    by (cases src; cases "tl src") auto
  define c where "c = cond_byte_swap 2 (word_of_le (take 2 src) :: 16 word)"
  have u: "unat c = 256 * unat (src ! 0) + unat (src ! 1)"
    unfolding c_def t by (rule be16)
  have "c = of_nat (unat c)" by simp
  then have c: "c = of_nat (256 * unat (src ! 0) + unat (src ! 1))"
    by (simp only: u)
  have cmp: "c < 1000 \<longleftrightarrow> unat c < 1000" "c > 4999 \<longleftrightarrow> 4999 < unat c"
    "c > 1011 \<longleftrightarrow> 1012 \<le> unat c" "c < 4000 \<longleftrightarrow> unat c \<le> 3999"
    "c \<ge> 1004 \<longleftrightarrow> 1004 \<le> unat c" "c \<le> 1006 \<longleftrightarrow> unat c \<le> 1006"
    by (auto simp: word_less_nat_alt word_le_nat_alt)
  have "parseClosePayload src =
     (if c < 1000 \<or> c > 4999 \<or> (c > 1011 \<and> c < 4000) \<or> (c \<ge> 1004 \<and> c \<le> 1006) \<or>
         \<not> isValidUtf8 (drop 2 src)
      then \<lparr>code = 1006, message = bytes_of_string ERR_INVALID_CLOSE_PAYLOAD,
            lengthCF = length ERR_INVALID_CLOSE_PAYLOAD\<rparr>
      else \<lparr>code = c, message = drop 2 src, lengthCF = length src - 2\<rparr>)"
    using False by (simp add: parseClosePayload_def Let_def c_def)
  also have "\<dots> = (if unat c < 1000 \<or> 4999 < unat c \<or> (1012 \<le> unat c \<and> unat c \<le> 3999) \<or>
         (1004 \<le> unat c \<and> unat c \<le> 1006) \<or> \<not> isValidUtf8 (drop 2 src)
      then \<lparr>code = 1006, message = bytes_of_string ERR_INVALID_CLOSE_PAYLOAD,
            lengthCF = length ERR_INVALID_CLOSE_PAYLOAD\<rparr>
      else \<lparr>code = of_nat (unat c), message = drop 2 src, lengthCF = length src - 2\<rparr>)"
    by (simp only: cmp of_nat_unat ucast_id)
  finally show ?thesis
    using False by (simp only: u if_False)
qed


theorem parseClosePayload_spec_witness:
  "parseClosePayload [0x03, 0xE8, 0x68, 0x69] = \<lparr>code = 1000, message = [0x68, 0x69], lengthCF = 2\<rparr> \<and>
   parseClosePayload [0x03, 0xEC] =
     \<lparr>code = 1006, message = bytes_of_string ERR_INVALID_CLOSE_PAYLOAD,
      lengthCF = length ERR_INVALID_CLOSE_PAYLOAD\<rparr>"
proof -
  have "isValidUtf8 [0x68, 0x69]" by (simp add: isValidUtf8.simps)
  then show ?thesis
    using parseClosePayload_spec [of "[0x03, 0xE8, 0x68, 0x69]"]
      parseClosePayload_spec [of "[0x03, 0xEC]"]
    by simp
qed

lemma length_xor_mask [simp]: "length (xor_mask mask4 xs) = length xs"
  by (simp add: xor_mask_def)

text \<open>
  C8: \<open>formatMessage\<close> writes and returns \<open>H + length\<close> bytes on a server and
  \<open>H + 4 + length\<close> on a client, where \<open>H\<close> is 2, 4 or 10 as the reported length is
  below 126, at most \<open>0xFFFF\<close>, or larger; on a server with the payload length as
  reported length the result is \<open>messageFrameSize(length)\<close>. The payload is a buffer in
  memory together with \<open>dst\<close>, so \<open>length + 14\<close> is a \<open>size_t\<close>.
\<close>

theorem formatMessage_size:
  assumes "length src + 14 < 2 ^ 64"
  shows "length (fst (formatMessage isServer src op reportedLength compressed fin random)) =
           headerLength reportedLength + (if isServer then 0 else 4) + length src \<and>
         unat (snd (formatMessage isServer src op reportedLength compressed fin random)) =
           headerLength reportedLength + (if isServer then 0 else 4) + length src \<and>
         snd (formatMessage True src op (of_nat (length src)) compressed fin random) =
           messageFrameSize (of_nat (length src))"
proof -
  have n: "unat (of_nat (length src) :: 64 word) = length src"
    using assms by (simp add: unat_of_nat)
  have a: "unat (k + of_nat (length src) :: 64 word) = unat k + length src" if "unat k \<le> 14" for k
    using that assms n by (simp add: unat_word_ariths)
  show ?thesis
    by (auto simp add: formatMessage_def headerLength_def messageFrameSize_def Let_def a
          split: prod.splits)
qed


theorem formatMessage_size_witness:
  "length [0x48 :: byte, 0x69] + 14 < 2 ^ 64 \<and>
   unat (snd (formatMessage False [0x48, 0x69] TEXT 2 False True 0x12345678)) = 8 \<and>
   unat (snd (formatMessage True [0x48, 0x69] TEXT 65536 False True 0)) = 12"
  using formatMessage_size [where src = "[0x48, 0x69]" and isServer = False and op = TEXT
      and reportedLength = 2 and compressed = False and fin = True and random = "0x12345678"]
    formatMessage_size [where src = "[0x48, 0x69]" and isServer = True and op = TEXT
      and reportedLength = 65536 and compressed = False and fin = True and random = 0]
  by (simp add: headerLength_def)

section \<open>Moving a move-only invocable\<close>

lemmas ai_defs = move_ctor_def destroy_impl_def swap_impl_def swap_take_def move_assign_def
  handle_move_at_def set_storage_def set_handle_def set_call_def empty_impl_def
  operator_bool_def eq_nullptr_def holds_def separate_def call_impl_def

lemma holds_cases:
  assumes "holds w a f"
  obtains "handle_f (objs w a) = Some small_handler" "call_f (objs w a) = Some small_handler"
      "storage_f (objs w a) = Inline f"
  | q where "handle_f (objs w a) = Some large_handler" "call_f (objs w a) = Some large_handler"
      "storage_f (objs w a) = Pointer q" "heap w q = Some f"
  using assms
  by (auto simp add: holds_def split: option.splits handler.splits storage.splits)

lemma holds_call_impl:
  assumes "holds w a f"
  shows "call_impl w a = Some f" and "operator_bool (objs w a)"
  using assms by (cases rule: holds_cases; simp add: call_impl_def operator_bool_def)+

lemma move_ctor_holds:
  assumes "holds w rhs f" and "this \<noteq> rhs"
  shows "holds (move_ctor this rhs w) this f \<and> handle_f (objs (move_ctor this rhs w) rhs) = None"
  using assms(1)
proof (cases rule: holds_cases)
  case 1
  then show ?thesis using assms(2) by (simp add: ai_defs)
next
  case (2 q)
  then show ?thesis using assms(2) by (simp add: ai_defs)
qed

lemma move_assign_holds:
  assumes "holds w rhs f" and "this \<noteq> rhs"
    and "tmp \<noteq> this" "tmp \<noteq> rhs" "tmp' \<noteq> this" "tmp' \<noteq> rhs" "tmp' \<noteq> tmp"
    and "separate w this rhs"
  shows "holds (move_assign tmp tmp' this rhs w) this f \<and>
         handle_f (objs (move_assign tmp tmp' this rhs w) rhs) = None"
  using assms(1)
proof (cases rule: holds_cases)
  case 1
  show ?thesis
  proof (cases "handle_f (objs w this)")
    case None
    with 1 assms(2-) show ?thesis by (simp add: ai_defs)
  next
    case (Some h)
    with 1 assms(2-) show ?thesis
      by (cases h; cases "storage_f (objs w this)") (simp_all add: ai_defs)
  qed
next
  case (2 q)
  show ?thesis
  proof (cases "handle_f (objs w this)")
    case None
    with 2 assms(2-) show ?thesis by (simp add: ai_defs)
  next
    case (Some h)
    with 2 assms(2-) show ?thesis
      by (cases h; cases "storage_f (objs w this)") (auto simp add: ai_defs)
  qed
qed

lemma self_move_assign_holds:
  assumes "holds w rhs f" and "tmp \<noteq> rhs" "tmp' \<noteq> rhs" "tmp' \<noteq> tmp"
  shows "holds (move_assign tmp tmp' rhs rhs w) rhs f"
  using assms(1)
proof (cases rule: holds_cases)
  case 1
  then show ?thesis using assms(2-) by (simp add: ai_defs)
next
  case (2 q)
  then show ?thesis using assms(2-) by (simp add: ai_defs)
qed

text \<open>
  C10 (amended). Let the source hold a callable. After move construction of another
  object from it, and after move assignment of it to another object that does not own the
  same heap cell, the source is empty (\<open>operator bool\<close> is false and it compares equal to
  \<open>nullptr\<close>) and the target holds the callable the source held: its \<open>handle_\<close> and
  \<open>call_\<close> are those of the callable's handler, and \<open>call\<close> invokes that callable. After
  move assignment of the source to itself it is not empty and still holds its callable.
\<close>

theorem move_leaves_source_empty:
  assumes "holds w rhs f"
  shows "(this \<noteq> rhs \<longrightarrow>
            holds (move_ctor this rhs w) this f \<and>
            call_impl (move_ctor this rhs w) this = Some f \<and>
            \<not> operator_bool (objs (move_ctor this rhs w) rhs) \<and>
            eq_nullptr (objs (move_ctor this rhs w) rhs)) \<and>
         (this \<noteq> rhs \<and> separate w this rhs \<and>
          tmp \<noteq> this \<and> tmp \<noteq> rhs \<and> tmp' \<noteq> this \<and> tmp' \<noteq> rhs \<and> tmp' \<noteq> tmp \<longrightarrow>
            holds (move_assign tmp tmp' this rhs w) this f \<and>
            call_impl (move_assign tmp tmp' this rhs w) this = Some f \<and>
            \<not> operator_bool (objs (move_assign tmp tmp' this rhs w) rhs) \<and>
            eq_nullptr (objs (move_assign tmp tmp' this rhs w) rhs)) \<and>
         (tmp \<noteq> rhs \<and> tmp' \<noteq> rhs \<and> tmp' \<noteq> tmp \<longrightarrow>
            holds (move_assign tmp tmp' rhs rhs w) rhs f \<and>
            call_impl (move_assign tmp tmp' rhs rhs w) rhs = Some f \<and>
            operator_bool (objs (move_assign tmp tmp' rhs rhs w) rhs) \<and>
            \<not> eq_nullptr (objs (move_assign tmp tmp' rhs rhs w) rhs))"
proof (intro conjI impI)
  assume a: "this \<noteq> rhs"
  note c = move_ctor_holds [OF assms a]
  from c show "holds (move_ctor this rhs w) this f" by simp
  from c show "call_impl (move_ctor this rhs w) this = Some f" by (simp add: holds_call_impl)
  from c show "\<not> operator_bool (objs (move_ctor this rhs w) rhs)"
    by (simp add: operator_bool_def)
  from c show "eq_nullptr (objs (move_ctor this rhs w) rhs)"
    by (simp add: operator_bool_def eq_nullptr_def)
next
  assume a: "this \<noteq> rhs \<and> separate w this rhs \<and>
    tmp \<noteq> this \<and> tmp \<noteq> rhs \<and> tmp' \<noteq> this \<and> tmp' \<noteq> rhs \<and> tmp' \<noteq> tmp"
  then have c: "holds (move_assign tmp tmp' this rhs w) this f \<and>
         handle_f (objs (move_assign tmp tmp' this rhs w) rhs) = None"
    using move_assign_holds [OF assms, of this tmp tmp'] by blast
  from c show "holds (move_assign tmp tmp' this rhs w) this f" by simp
  from c show "call_impl (move_assign tmp tmp' this rhs w) this = Some f"
    by (simp add: holds_call_impl)
  from c show "\<not> operator_bool (objs (move_assign tmp tmp' this rhs w) rhs)"
    by (simp add: operator_bool_def)
  from c show "eq_nullptr (objs (move_assign tmp tmp' this rhs w) rhs)"
    by (simp add: operator_bool_def eq_nullptr_def)
next
  assume a: "tmp \<noteq> rhs \<and> tmp' \<noteq> rhs \<and> tmp' \<noteq> tmp"
  then have c: "holds (move_assign tmp tmp' rhs rhs w) rhs f"
    using self_move_assign_holds [OF assms, of tmp tmp'] by blast
  from c show "holds (move_assign tmp tmp' rhs rhs w) rhs f" .
  from c show "call_impl (move_assign tmp tmp' rhs rhs w) rhs = Some f"
    by (rule holds_call_impl)
  from c show "operator_bool (objs (move_assign tmp tmp' rhs rhs w) rhs)"
    by (rule holds_call_impl)
  from c show "\<not> eq_nullptr (objs (move_assign tmp tmp' rhs rhs w) rhs)"
    by (simp add: eq_nullptr_def holds_call_impl)
qed

text \<open>
  C10 (as stated): after a move assignment from a non-empty source the moved-from object
  would always be empty. When the source is the target itself, the object is not empty
  afterwards: it does not compare equal to \<open>nullptr\<close>.
\<close>

theorem self_move_assign_counterexample:
  "operator_bool (objs one_callable 1) \<and>
   operator_bool (objs (move_assign 2 3 1 1 one_callable) 1) \<and>
   \<not> eq_nullptr (objs (move_assign 2 3 1 1 one_callable) 1)"
  by (simp add: ai_defs one_callable_def)

theorem move_leaves_source_empty_witness:
  "holds one_callable 1 7 \<and> separate one_callable 0 1 \<and>
   holds (move_ctor 0 1 one_callable) 0 7 \<and> eq_nullptr (objs (move_ctor 0 1 one_callable) 1) \<and>
   holds (move_assign 2 3 0 1 one_callable) 0 7 \<and>
   call_impl (move_assign 2 3 0 1 one_callable) 0 = Some 7 \<and>
   eq_nullptr (objs (move_assign 2 3 0 1 one_callable) 1) \<and>
   holds (move_assign 2 3 1 1 one_callable) 1 7"
proof -
  have h: "holds one_callable 1 7" and s: "separate one_callable 0 1"
    by (simp_all add: one_callable_def holds_def separate_def empty_impl_def)
  from move_leaves_source_empty [OF h, of 0 2 3] h s show ?thesis by simp
qed

section \<open>The range of the opcode stack\<close>

lemma opCode_upd_fields [simp]:
  "opStack (opCode_upd s i v) = opStack s"
  "wantsHead (opCode_upd s i v) = wantsHead s"
  "lastFin (opCode_upd s i v) = lastFin s"
  "spillLength (opCode_upd s i v) = spillLength s"
  "remainingBytes (opCode_upd s i v) = remainingBytes s"
  "maskWS (opCode_upd s i v) = maskWS s"
  "length (opCode (opCode_upd s i v)) = length (opCode s)"
  "length (spill (opCode_upd s i v)) = length (spill s)"
  by (simp_all add: opCode_upd_def)

lemma wrap2_simps [simp]: "wrap2 (- 1) = - 1" "wrap2 0 = 0" "wrap2 1 = 1" "wrap2 2 = - 2"
  by (simp_all add: wrap2_def)

lemma consumeMessage_opStack_ok_aux:
  assumes "opStack_ok (wState p)" "wantsHead (wState p)"
  shows "case consumeMessage isServer impl MESSAGE_HEADER W payLength src len p of
           (stop, src', len', p') \<Rightarrow> opStack_ok (wState p') \<and> (stop \<or> wantsHead (wState p'))"
proof -
  have "opStack (wState p) = - 1 \<or> opStack (wState p) = 0 \<or> opStack (wState p) = 1"
    using assms(1) by (auto simp add: opStack_ok_def)
  then show ?thesis
    using assms
    apply (elim disjE)
      apply (simp_all add: consumeMessage_def Let_def emit_def opStack_ok_def)
    done
qed

lemma consumeMessage_opStack_ok:
  assumes "opStack_ok (wState p)" "wantsHead (wState p)"
    and "consumeMessage isServer impl MESSAGE_HEADER W payLength src len p = (stop, src', len', p')"
  shows "opStack_ok (wState p') \<and> (stop \<or> wantsHead (wState p'))"
  using consumeMessage_opStack_ok_aux [OF assms(1,2), of isServer impl MESSAGE_HEADER W payLength src len]
  by (simp add: assms(3))

lemma consumeContinuation_opStack_ok_aux:
  assumes "opStack_ok (wState p)" "\<not> wantsHead (wState p)"
  shows "case consumeContinuation isServer impl src len p of
           (again, src', len', p') \<Rightarrow> opStack_ok (wState p') \<and> (again \<longrightarrow> wantsHead (wState p'))"
proof -
  have "opStack (wState p) = 0 \<or> opStack (wState p) = 1"
    using assms by (auto simp add: opStack_ok_def)
  then show ?thesis
    using assms
    apply (elim disjE)
     apply (simp_all add: consumeContinuation_def Let_def emit_def opStack_ok_def)
    done
qed

lemma consumeContinuation_opStack_ok:
  assumes "opStack_ok (wState p)" "\<not> wantsHead (wState p)"
    and "consumeContinuation isServer impl src len p = (again, src', len', p')"
  shows "opStack_ok (wState p') \<and> (again \<longrightarrow> wantsHead (wState p'))"
  using consumeContinuation_opStack_ok_aux [OF assms(1,2), of isServer impl src len]
  by (simp add: assms(3))

lemma spillRest_opStack_ok:
  "opStack_ok (wState p) \<Longrightarrow> opStack_ok (wState (spillRest src len p))"
  by (simp add: spillRest_def opStack_ok_def)

lemma parseNext_opStack_ok:
  assumes "parseNext isServer impl src len p = Some p'"
  shows "opStack_ok (wState p) \<and> wantsHead (wState p) \<longrightarrow> opStack_ok (wState p')"
proof (rule parseNext.raw_induct
    [where P = "\<lambda>isServer impl src len p p'.
                  opStack_ok (wState p) \<and> wantsHead (wState p) \<longrightarrow> opStack_ok (wState p')",
     OF _ assms], goal_cases)
  case (1 f isServer impl src len p p')
  show ?case
  proof
    assume J: "opStack_ok (wState p) \<and> wantsHead (wState p)"
    have step: "opStack_ok (wState q)"
      if "consumeMessage isServer impl H W n src len p = (stop, src', len', p'')"
        and "(if stop then Some p'' else f isServer impl src' len' p'') = Some q"
      for H W n stop src' len' p'' q
      using consumeMessage_opStack_ok [OF _ _ that(1)] J that(2) 1(1) [of isServer impl src' len' p'' q]
      by (auto split: if_splits)
    from 1(2) J show "opStack_ok (wState p')"
      by (auto simp add: Let_def emit_def spillRest_opStack_ok split: if_splits prod.splits
          dest: step)
  qed
qed

lemma consume_opStack_ok:
  assumes "consume isServer impl src len p = Some p'" and "opStack_ok (wState p)"
  shows "opStack_ok (wState p')"
proof -
  define src1 where "src1 = (if spillLength (wState p) \<noteq> 0 then src - int (spillLength (wState p)) else src)"
  define len1 where
    "len1 = (if spillLength (wState p) \<noteq> 0 then (len + spillLength (wState p)) mod 2 ^ 32 else len)"
  define p1 where
    "p1 = (if spillLength (wState p) \<noteq> 0
           then p\<lparr>mem := wr (mem p) src1 (take (spillLength (wState p)) (spill (wState p)))\<rparr>
           else p)"
  have w: "wState p1 = wState p" by (simp add: p1_def)
  have c: "consume isServer impl src len p =
             (if wantsHead (wState p) then parseNext isServer impl src1 len1 p1
              else (case consumeContinuation isServer impl src1 len1 p1 of
                      (again, src2, len2, p2) \<Rightarrow>
                        if again then parseNext isServer impl src2 len2 p2 else Some p2))"
    by (simp only: consume_def Let_def src1_def len1_def p1_def)
  show ?thesis
  proof (cases "wantsHead (wState p)")
    case True
    with assms c w show ?thesis
      using parseNext_opStack_ok [of isServer impl src1 len1 p1 p'] by simp
  next
    case False
    obtain again src2 len2 p2 where
      cc: "consumeContinuation isServer impl src1 len1 p1 = (again, src2, len2, p2)"
      by (metis prod_cases4)
    have "opStack_ok (wState p2) \<and> (again \<longrightarrow> wantsHead (wState p2))"
      by (rule consumeContinuation_opStack_ok [OF _ _ cc]) (use False assms(2) w in auto)
    moreover have "(if again then parseNext isServer impl src2 len2 p2 else Some p2) = Some p'"
      using assms(1) False c cc by simp
    ultimately show ?thesis
      using parseNext_opStack_ok [of isServer impl src2 len2 p2 p']
      by (auto split: if_splits)
  qed
qed

lemma feed_opStack_ok:
  "feed isServer impl base p cs = Some p' \<Longrightarrow> opStack_ok (wState p) \<Longrightarrow> opStack_ok (wState p')"
proof (induction cs arbitrary: p)
  case Nil
  then show ?case by simp
next
  case (Cons c cs)
  then show ?case
    by (auto split: option.splits if_splits dest!: consume_opStack_ok)
qed

lemma fresh_state_opStack_ok: "fresh_state isServer s \<Longrightarrow> opStack_ok s"
  by (simp add: fresh_state_def opStack_ok_def)

text \<open>
  C4 (amended): on a connection fed from its initial state, \<open>opStack\<close> is \<open>-1\<close>, 0 or 1
  at every return from \<open>consume\<close>.
\<close>

theorem opStack_range_at_return:
  assumes "fresh_state isServer (wState p)"
    and "feed isServer impl base p cs = Some p'"
  shows "opStack (wState p') \<in> {- 1, 0, 1}"
proof -
  have "opStack_ok (wState p')"
    using feed_opStack_ok [OF assms(2)] fresh_state_opStack_ok [OF assms(1)] .
  then show ?thesis by (auto simp add: opStack_ok_def)
qed

text \<open>
  C4 (as stated): \<open>opStack\<close> would be \<open>-1\<close> or 0 at every return from \<open>consume\<close>. A client
  that receives an unfinished Text frame and then a Ping whose 2-byte body is not
  complete returns from \<open>consume\<close> with \<open>opStack = 1\<close>.
\<close>

theorem opStack_at_return_counterexample:
  "map_option (opStack \<circ> wState)
     (consume False accept_all 100 6
        ((start False)\<lparr>mem := wr (\<lambda>a. 0) 100 [0x01, 0x01, 0x41, 0x89, 0x02, 0x42]\<rparr>))
   = Some 1"
  by (simp add: model_defs Let_def upt_rec nth_append parseNext.simps)

theorem opStack_range_at_return_witness:
  "fresh_state False (wState (start False)) \<and>
   map_option (\<lambda>p. opStack (wState p) \<in> {- 1, 0, 1})
     (feed False accept_all 100 (start False) [[0x01, 0x01, 0x41], [0x89, 0x02, 0x42]]) = Some True"
proof -
  have f: "fresh_state False (wState (start False))"
    by (simp add: fresh_state_def start_def init_state_def LONG_MESSAGE_HEADER_def)
  have "feed False accept_all 100 (start False) [[0x01, 0x01, 0x41], [0x89, 0x02, 0x42]] \<noteq> None"
    by (simp add: model_defs Let_def upt_rec nth_append parseNext.simps)
  then obtain p' where
    p': "feed False accept_all 100 (start False) [[0x01, 0x01, 0x41], [0x89, 0x02, 0x42]] = Some p'"
    by auto
  from opStack_range_at_return [OF f p'] f p' show ?thesis by simp
qed

section \<open>Byte tests\<close>

text \<open>The bit tests of the validator, as ranges of the byte value.\<close>

lemma unat_byte_less: "unat (b :: byte) < 256"
  using unsigned_less [of b, where 'a = nat] by simp

lemma and_high: "(b :: byte) AND NOT (mask k) = push_bit k (drop_bit k b)"
  by (rule bit_word_eqI) (auto simp add: bit_simps)

lemma unat_and_high:
  "unat ((b :: byte) AND NOT (mask k)) = 2 ^ k * (unat b div 2 ^ k)"
proof -
  have le: "2 ^ k * (unat b div 2 ^ k) \<le> unat b" by simp
  have "unat (push_bit k (drop_bit k b)) = take_bit 8 (push_bit k (drop_bit k (unat b)))"
    using unat_byte_less [of b]
    by (simp add: unsigned_push_bit_eq unsigned_drop_bit_eq take_bit_nat_eq_self)
  also have "\<dots> = (2 ^ k * (unat b div 2 ^ k)) mod 256"
    by (simp add: take_bit_eq_mod push_bit_eq_mult drop_bit_eq_div mult.commute)
  also have "\<dots> = 2 ^ k * (unat b div 2 ^ k)"
    by (rule mod_less) (use le unat_byte_less [of b] in linarith)
  finally show ?thesis by (simp add: and_high)
qed

lemma high_test:
  "((b :: byte) AND NOT (mask k) = c) = (2 ^ k * (unat b div 2 ^ k) = unat c)"
  by (simp add: word_unat_eq_iff unat_and_high)

lemma masks: "(0x80 :: byte) = NOT (mask 7)" "(0xc0 :: byte) = NOT (mask 6)" "(0xe0 :: byte) = NOT (mask 5)"
  "(0xf0 :: byte) = NOT (mask 4)" "(0xf8 :: byte) = NOT (mask 3)" "(0xfe :: byte) = NOT (mask 1)"
  by (simp_all add: mask_eq_exp_minus_1)

lemma and_masks:
  fixes b c :: byte
  shows "(b AND 0x80 = c) = (128 * (unat b div 128) = unat c)"
    and "(b AND 0xc0 = c) = (64 * (unat b div 64) = unat c)"
    and "(b AND 0xe0 = c) = (32 * (unat b div 32) = unat c)"
    and "(b AND 0xf0 = c) = (16 * (unat b div 16) = unat c)"
    and "(b AND 0xf8 = c) = (8 * (unat b div 8) = unat c)"
    and "(b AND 0xfe = c) = (2 * (unat b div 2) = unat c)"
  using high_test [of b 7 c] high_test [of b 6 c] high_test [of b 5 c] high_test [of b 4 c]
    high_test [of b 3 c] high_test [of b 1 c]
  by (simp_all only: masks [symmetric]) simp_all

lemma unat_and_60: "unat ((b :: byte) AND 0x60) = (32 * (unat b div 32)) mod 128"
proof -
  have "(0x60 :: byte) = NOT (mask 5) AND mask 7" by (simp add: mask_eq_exp_minus_1)
  then have "b AND 0x60 = take_bit 7 (b AND NOT (mask 5))"
    by (simp add: take_bit_eq_mask and.assoc)
  then have "unat (b AND 0x60) = take_bit 7 (unat (b AND NOT (mask 5)))"
    by (simp only: unsigned_take_bit_eq)
  then show ?thesis
    by (simp add: unat_and_high take_bit_eq_mod)
qed

lemma and_60_test:
  assumes "0x80 \<le> unat (b::byte)"
  shows "(b AND 0x60 = 0x40) = (0xC0 \<le> unat b \<and> unat b < 0xE0)"
proof -
  define q where "q = unat b div 32"
  have q: "4 \<le> q \<and> q < 8"
    using assms unat_byte_less [of b] unfolding q_def by arith
  have "(32 * q) mod (32 * 4) = 32 * (q mod 4)" by (rule mult_mod_right [symmetric])
  then have m: "(32 * q) mod 128 = 32 * (q mod 4)" by simp
  have "(b AND 0x60 = 0x40) = ((32 * q) mod 128 = 64)"
    by (simp only: word_unat_eq_iff unat_and_60 q_def) simp
  also have "\<dots> = (q mod 4 = 2)"
    by (simp only: m) simp
  also have "\<dots> = (q = 6)"
    using q by presburger
  also have "\<dots> = (0xC0 \<le> unat b \<and> unat b < 0xE0)"
    unfolding q_def by arith
  finally show ?thesis .
qed

lemma byte_tests:
  fixes b :: byte
  shows "(b AND 0x80 = 0) = (unat b < 0x80)"
    and "(b AND 0xfe = 0xc0) = (unat b = 0xC0 \<or> unat b = 0xC1)"
    and "(b AND 0xc0 = 0x80) = (0x80 \<le> unat b \<and> unat b < 0xC0)"
    and "(b AND 0xf0 = 0xe0) = (0xE0 \<le> unat b \<and> unat b < 0xF0)"
    and "(b AND 0xe0 = 0x80) = (0x80 \<le> unat b \<and> unat b < 0xA0)"
    and "(b AND 0xe0 = 0xa0) = (0xA0 \<le> unat b \<and> unat b < 0xC0)"
    and "(b AND 0xf8 = 0xf0) = (0xF0 \<le> unat b \<and> unat b < 0xF8)"
    and "(b AND 0xf0 = 0x80) = (0x80 \<le> unat b \<and> unat b < 0x90)"
  by (simp_all add: and_masks div_eq_0_iff) arith+

lemma byte_cmp:
  fixes b :: byte
  shows "(b = 0xe0) = (unat b = 0xE0)" "(b = 0xed) = (unat b = 0xED)" "(b = 0xf0) = (unat b = 0xF0)"
    "(b = 0xf4) = (unat b = 0xF4)" "(b > 0x8f) = (0x8F < unat b)" "(b > 0xf4) = (0xF4 < unat b)"
  by (simp_all add: word_less_nat_alt word_unat_eq_iff)

lemma high_bit_test: "((b :: byte) AND 0x80 = 0) = (\<not> bit b 7)"
proof -
  have "(0x80 :: byte) = 2 ^ 7" by simp
  then show ?thesis by (simp only: and_exp_eq_0_iff_not_bit)
qed

lemma bit_mask_8080: "bit (0x8080808080808080 :: 64 word) n = (n < 64 \<and> n mod 8 = 7)"
proof -
  have r: "replicate 8 (0x80 :: byte) = [0x80, 0x80, 0x80, 0x80, 0x80, 0x80, 0x80, 0x80]"
    by (simp add: eval_nat_numeral)
  have c: "(0x8080808080808080 :: 64 word) = word_of_le (replicate 8 (0x80 :: byte))"
    unfolding r by (simp add: word_of_le_def word_rcat_def)
  have b: "bit (0x80 :: byte) k = (k = 7)" for k
  proof -
    have "(0x80 :: byte) = 2 ^ 7" by simp
    then show ?thesis by (simp only: bit_exp_iff) auto
  qed
  have "bit (0x8080808080808080 :: 64 word) n =
          (n < 64 \<and> n div 8 < 8 \<and> bit (replicate 8 (0x80 :: byte) ! (n div 8)) (n mod 8))"
    by (simp only: c bit_word_of_le length_replicate) simp
  also have "\<dots> = (n < 64 \<and> n div 8 < 8 \<and> n mod 8 = 7)"
    by (simp only: nth_replicate b cong: conj_cong)
  also have "\<dots> = (n < 64 \<and> n mod 8 = 7)"
    by auto
  finally show ?thesis .
qed

lemma word_of_le_ascii:
  assumes "length bs = 8"
  shows "((word_of_le bs :: 64 word) AND 0x8080808080808080 = 0) = (\<forall>b\<in>set bs. unat b < 0x80)"
proof -
  have "((word_of_le bs :: 64 word) AND 0x8080808080808080 = 0) =
        (\<forall>n. \<not> (bit (word_of_le bs :: 64 word) n \<and> n < 64 \<and> n mod 8 = 7))"
    by (simp only: bit_eq_iff [where ?'a = "64 word"] bit_and_iff bit_mask_8080) simp
  also have "\<dots> = (\<forall>i<8. \<not> bit (bs ! i) 7)"
  proof
    assume l: "\<forall>n. \<not> (bit (word_of_le bs :: 64 word) n \<and> n < 64 \<and> n mod 8 = 7)"
    show "\<forall>i<8. \<not> bit (bs ! i) 7"
    proof (intro allI impI)
      fix i :: nat assume "i < 8"
      then have "8 * i + 7 < 64" "(8 * i + 7) div 8 = i" "(8 * i + 7) mod 8 = 7" by simp_all
      with l [rule_format, of "8 * i + 7"] assms \<open>i < 8\<close> show "\<not> bit (bs ! i) 7"
        by (simp add: bit_word_of_le)
    qed
  next
    assume "\<forall>i<8. \<not> bit (bs ! i) 7"
    then show "\<forall>n. \<not> (bit (word_of_le bs :: 64 word) n \<and> n < 64 \<and> n mod 8 = 7)"
      using assms by (auto simp add: bit_word_of_le)
  qed
  also have "\<dots> = (\<forall>b\<in>set bs. unat b < 0x80)"
    using assms by (simp add: all_set_conv_all_nth byte_tests(1) [symmetric] high_bit_test)
  finally show ?thesis .
qed

lemma ascii16_iff:
  assumes "16 \<le> length s"
  shows "ascii16 s = (\<forall>b\<in>set (take 16 s). unat b < 0x80)"
proof -
  have t: "take 16 s = take 8 s @ take 8 (drop 8 s)"
    by (simp add: take_add [of 8 8 s, simplified])
  show ?thesis
    using assms
    by (simp add: ascii16_def or_eq_0_iff word_of_le_ascii t ball_Un)
qed

section \<open>The UTF-8 validator and RFC 3629\<close>

subsection \<open>The validator decides the grammar\<close>

lemma utf8_ok_ascii_append:
  "\<forall>b\<in>set xs. unat b < 0x80 \<Longrightarrow> utf8_ok (xs @ ys) = utf8_ok ys"
  by (induction xs) simp_all

lemma utf8_ok_dropWhile:
  "utf8_ok s = utf8_ok (dropWhile (\<lambda>c. c AND 0x80 = 0) s)"
proof -
  have "s = takeWhile (\<lambda>c. unat c < 0x80) s @ dropWhile (\<lambda>c. unat c < 0x80) s" by simp
  moreover have "\<forall>b\<in>set (takeWhile (\<lambda>c. unat c < 0x80) s). unat b < 0x80"
    by (auto dest: set_takeWhileD)
  ultimately have "utf8_ok s = utf8_ok (dropWhile (\<lambda>c. unat c < 0x80) s)"
    by (metis utf8_ok_ascii_append)
  then show ?thesis by (simp add: byte_tests(1))
qed

lemma utf8_ok_drop16:
  assumes "16 \<le> length s" "ascii16 s"
  shows "utf8_ok s = utf8_ok (drop 16 s)"
proof -
  have "\<forall>b\<in>set (take 16 s). unat b < 0x80" using assms by (simp add: ascii16_iff)
  then have "utf8_ok (take 16 s @ drop 16 s) = utf8_ok (drop 16 s)"
    by (rule utf8_ok_ascii_append)
  then show ?thesis by simp
qed

lemma utf8_ok_lead2:
  assumes "0xC0 \<le> unat b" "unat b < 0xE0"
  shows "utf8_ok (b # bs) =
    (\<not> (length (b # bs) \<le> 1 \<or> ((b # bs) ! 1) AND 0xc0 \<noteq> 0x80 \<or> b AND 0xfe = 0xc0) \<and>
       utf8_ok (drop 2 (b # bs)))"
proof (cases bs)
  case Nil
  with assms show ?thesis by simp
next
  case (Cons b1 r)
  with assms show ?thesis by (auto simp add: byte_tests is_cont_def)
qed

lemma utf8_ok_lead3:
  assumes "0xE0 \<le> unat b" "unat b < 0xF0"
  shows "utf8_ok (b # bs) =
    (\<not> (length (b # bs) \<le> 2 \<or> ((b # bs) ! 1) AND 0xc0 \<noteq> 0x80 \<or> ((b # bs) ! 2) AND 0xc0 \<noteq> 0x80 \<or>
           (b = 0xe0 \<and> ((b # bs) ! 1) AND 0xe0 = 0x80) \<or> (b = 0xed \<and> ((b # bs) ! 1) AND 0xe0 = 0xa0)) \<and>
       utf8_ok (drop 3 (b # bs)))"
proof -
  consider "bs = []" | b1 where "bs = [b1]" | b1 b2 r where "bs = b1 # b2 # r"
    by (metis list.exhaust)
  then show ?thesis
  proof cases
    case 1
    with assms show ?thesis by simp
  next
    case 2
    with assms show ?thesis by simp
  next
    case 3
    with assms show ?thesis by (auto simp add: byte_tests byte_cmp is_cont_def)
  qed
qed

lemma utf8_ok_lead4:
  assumes "0xF0 \<le> unat b" "unat b < 0xF8"
  shows "utf8_ok (b # bs) =
    (\<not> (length (b # bs) \<le> 3 \<or> ((b # bs) ! 1) AND 0xc0 \<noteq> 0x80 \<or> ((b # bs) ! 2) AND 0xc0 \<noteq> 0x80 \<or>
           ((b # bs) ! 3) AND 0xc0 \<noteq> 0x80 \<or> (b = 0xf0 \<and> ((b # bs) ! 1) AND 0xf0 = 0x80) \<or>
           (b = 0xf4 \<and> ((b # bs) ! 1) > 0x8f) \<or> b > 0xf4) \<and>
       utf8_ok (drop 4 (b # bs)))"
proof -
  consider "bs = []" | b1 where "bs = [b1]" | b1 b2 where "bs = [b1, b2]"
    | b1 b2 b3 r where "bs = b1 # b2 # b3 # r"
    by (metis list.exhaust)
  then show ?thesis
  proof cases
    case 1
    with assms show ?thesis by simp
  next
    case 2
    with assms show ?thesis by simp
  next
    case 3
    with assms show ?thesis by simp
  next
    case 4
    with assms show ?thesis by (auto simp add: byte_tests byte_cmp is_cont_def)
  qed
qed

lemma utf8_ok_stray:
  assumes "0x80 \<le> unat b" "unat b < 0xC0 \<or> 0xF8 \<le> unat b"
  shows "\<not> utf8_ok (b # bs)"
  using assms by auto

lemma isValidUtf8_utf8_ok: "isValidUtf8 s = utf8_ok s"
proof (induction s rule: isValidUtf8.induct)
  case (1 s)
  show ?case
  proof (cases "s = []")
    case True
    then show ?thesis by (simp add: isValidUtf8.simps)
  next
    case ne: False
    show ?thesis
    proof (cases "16 \<le> length s \<and> ascii16 s")
      case True
      with ne 1(1) have "isValidUtf8 (drop 16 s) = utf8_ok (drop 16 s)" by blast
      with True ne show ?thesis by (subst isValidUtf8.simps) (simp add: utf8_ok_drop16)
    next
      case slow: False
      define t where "t = dropWhile (\<lambda>c. c AND 0x80 = 0) s"
      have ok: "utf8_ok s = utf8_ok t" unfolding t_def by (rule utf8_ok_dropWhile)
      note ih = 1(2-4) [OF ne slow t_def]
      have unf: "isValidUtf8 s =
        (if t = [] then True
         else if (t ! 0) AND 0x60 = 0x40 then
           (if length t \<le> 1 \<or> (t ! 1) AND 0xc0 \<noteq> 0x80 \<or> (t ! 0) AND 0xfe = 0xc0
            then False else isValidUtf8 (drop 2 t))
         else if (t ! 0) AND 0xf0 = 0xe0 then
           (if length t \<le> 2 \<or> (t ! 1) AND 0xc0 \<noteq> 0x80 \<or> (t ! 2) AND 0xc0 \<noteq> 0x80 \<or>
               (t ! 0 = 0xe0 \<and> (t ! 1) AND 0xe0 = 0x80) \<or> (t ! 0 = 0xed \<and> (t ! 1) AND 0xe0 = 0xa0)
            then False else isValidUtf8 (drop 3 t))
         else if (t ! 0) AND 0xf8 = 0xf0 then
           (if length t \<le> 3 \<or> (t ! 1) AND 0xc0 \<noteq> 0x80 \<or> (t ! 2) AND 0xc0 \<noteq> 0x80 \<or>
               (t ! 3) AND 0xc0 \<noteq> 0x80 \<or> (t ! 0 = 0xf0 \<and> (t ! 1) AND 0xf0 = 0x80) \<or>
               (t ! 0 = 0xf4 \<and> (t ! 1) > 0x8f) \<or> (t ! 0) > 0xf4
            then False else isValidUtf8 (drop 4 t))
         else False)"
        using ne slow by (subst isValidUtf8.simps) (simp only: t_def Let_def if_False)
      show ?thesis
      proof (cases t)
        case Nil
        with unf ok show ?thesis by simp
      next
        case (Cons b bs)
        then have t0: "t ! 0 = b" and tne: "t \<noteq> []" by simp_all
        have "\<not> (b AND 0x80 = 0)"
          using hd_dropWhile [of "\<lambda>c. c AND 0x80 = 0" s] tne Cons unfolding t_def by auto
        then have hb: "0x80 \<le> unat b" by (simp add: byte_tests)
        consider (stray) "unat b < 0xC0 \<or> 0xF8 \<le> unat b"
          | (two) "0xC0 \<le> unat b" "unat b < 0xE0"
          | (three) "0xE0 \<le> unat b" "unat b < 0xF0"
          | (four) "0xF0 \<le> unat b" "unat b < 0xF8"
          by linarith
        then show ?thesis
        proof cases
          case stray
          then have c: "\<not> (t ! 0 AND 0x60 = 0x40)" "\<not> (t ! 0 AND 0xf0 = 0xe0)" "\<not> (t ! 0 AND 0xf8 = 0xf0)"
            using hb by (auto simp add: t0 and_60_test byte_tests)
          have "\<not> isValidUtf8 s" by (simp only: unf c tne if_False) simp
          moreover have "\<not> utf8_ok t" unfolding Cons using hb stray by (rule utf8_ok_stray)
          ultimately show ?thesis using ok by simp
        next
          case two
          then have c: "t ! 0 AND 0x60 = 0x40" using hb by (simp add: t0 and_60_test)
          let ?bad = "length t \<le> 1 \<or> (t ! 1) AND 0xc0 \<noteq> 0x80 \<or> (t ! 0) AND 0xfe = 0xc0"
          have u: "isValidUtf8 s = (\<not> ?bad \<and> isValidUtf8 (drop 2 t))"
            by (simp only: unf c tne if_False if_True) auto
          have g: "utf8_ok t = (\<not> ?bad \<and> utf8_ok (drop 2 t))"
            unfolding Cons using utf8_ok_lead2 [OF two, of bs] by simp
          show ?thesis
          proof (cases ?bad)
            case True
            with u g ok show ?thesis by blast
          next
            case False
            from ih(1) [OF tne] c False have "isValidUtf8 (drop 2 t) = utf8_ok (drop 2 t)" by simp
            with u g ok show ?thesis by blast
          qed
        next
          case three
          then have c: "\<not> (t ! 0 AND 0x60 = 0x40)" "t ! 0 AND 0xf0 = 0xe0"
            using hb by (simp_all add: t0 and_60_test byte_tests)
          let ?bad = "length t \<le> 2 \<or> (t ! 1) AND 0xc0 \<noteq> 0x80 \<or> (t ! 2) AND 0xc0 \<noteq> 0x80 \<or>
               (t ! 0 = 0xe0 \<and> (t ! 1) AND 0xe0 = 0x80) \<or> (t ! 0 = 0xed \<and> (t ! 1) AND 0xe0 = 0xa0)"
          have u: "isValidUtf8 s = (\<not> ?bad \<and> isValidUtf8 (drop 3 t))"
            by (simp only: unf c tne if_False if_True) auto
          have g: "utf8_ok t = (\<not> ?bad \<and> utf8_ok (drop 3 t))"
            unfolding Cons using utf8_ok_lead3 [OF three, of bs] by simp
          show ?thesis
          proof (cases ?bad)
            case True
            with u g ok show ?thesis by blast
          next
            case False
            from ih(2) [OF tne] c False have "isValidUtf8 (drop 3 t) = utf8_ok (drop 3 t)" by simp
            with u g ok show ?thesis by blast
          qed
        next
          case four
          then have c: "\<not> (t ! 0 AND 0x60 = 0x40)" "\<not> (t ! 0 AND 0xf0 = 0xe0)" "t ! 0 AND 0xf8 = 0xf0"
            using hb by (simp_all add: t0 and_60_test byte_tests)
          let ?bad = "length t \<le> 3 \<or> (t ! 1) AND 0xc0 \<noteq> 0x80 \<or> (t ! 2) AND 0xc0 \<noteq> 0x80 \<or>
               (t ! 3) AND 0xc0 \<noteq> 0x80 \<or> (t ! 0 = 0xf0 \<and> (t ! 1) AND 0xf0 = 0x80) \<or>
               (t ! 0 = 0xf4 \<and> (t ! 1) > 0x8f) \<or> (t ! 0) > 0xf4"
          have u: "isValidUtf8 s = (\<not> ?bad \<and> isValidUtf8 (drop 4 t))"
            by (simp only: unf c tne if_False if_True) auto
          have g: "utf8_ok t = (\<not> ?bad \<and> utf8_ok (drop 4 t))"
            unfolding Cons using utf8_ok_lead4 [OF four, of bs] by simp
          show ?thesis
          proof (cases ?bad)
            case True
            with u g ok show ?thesis by blast
          next
            case False
            from ih(3) [OF tne] c False have "isValidUtf8 (drop 4 t) = utf8_ok (drop 4 t)" by simp
            with u g ok show ?thesis by blast
          qed
        qed
      qed
    qed
  qed
qed

subsection \<open>The grammar describes the encodings of scalar values\<close>

lemma of_nat_unat_byte: "(of_nat (unat (b :: byte)) :: byte) = b"
  by simp

lemma unat_of_nat_byte: "n < 256 \<Longrightarrow> unat (of_nat n :: byte) = n"
  by (simp add: unat_of_nat)

lemma split3_div:
  fixes h m l :: nat
  assumes "l < 64"
  shows "(4096 * h + 64 * m + l) div 64 = 64 * h + m"
  using assms by simp

lemma split3:
  fixes h m l :: nat
  assumes "m < 64" "l < 64"
  shows "(4096 * h + 64 * m + l) div 4096 = h" "(4096 * h + 64 * m + l) div 64 mod 64 = m"
    "(4096 * h + 64 * m + l) mod 64 = l"
proof -
  have e: "4096 * h + 64 * m + l = 64 * (64 * h + m) + l" by simp
  show "(4096 * h + 64 * m + l) mod 64 = l" by (simp only: e mod_mult_self4 mod_less assms)
  show "(4096 * h + 64 * m + l) div 64 mod 64 = m"
    unfolding split3_div [OF assms(2)] using assms by simp
  have "64 * m + l < 4096" using assms by simp
  then show "(4096 * h + 64 * m + l) div 4096 = h" by simp
qed

lemma split2:
  fixes h m :: nat
  assumes "m < 64"
  shows "(64 * h + m) div 64 = h" "(64 * h + m) mod 64 = m"
  using assms by simp_all

lemma join3:
  fixes c :: nat
  shows "c = 4096 * (c div 4096) + 64 * (c div 64 mod 64) + c mod 64"
proof -
  have "c div 4096 = c div 64 div 64" by (simp add: div_mult2_eq)
  then have "64 * (c div 4096) + c div 64 mod 64 = c div 64" by simp
  then have "64 * (64 * (c div 4096) + c div 64 mod 64) + c mod 64 = c" by simp
  then show ?thesis by simp
qed

lemma enc1:
  assumes "c < 0x80"
  shows "utf8_encode c = [of_nat c]" "is_scalar_value c"
  using assms by (simp_all add: utf8_encode_def is_scalar_value_def)

lemma enc2:
  assumes "2 \<le> h" "h < 32" "m < 64"
  shows "utf8_encode (64 * h + m) = [of_nat (0xC0 + h), of_nat (0x80 + m)]"
    and "is_scalar_value (64 * h + m)"
proof -
  have r: "\<not> 64 * h + m < 0x80" "64 * h + m < 0x800" using assms by simp_all
  show "utf8_encode (64 * h + m) = [of_nat (0xC0 + h), of_nat (0x80 + m)]"
    unfolding utf8_encode_def using r by (simp only: if_True if_False split2 [OF assms(3)])
  show "is_scalar_value (64 * h + m)" using r by (simp add: is_scalar_value_def)
qed

lemma enc3:
  assumes "h < 16" "m < 64" "l < 64" "h = 0 \<longrightarrow> 32 \<le> m"
  shows "utf8_encode (4096 * h + 64 * m + l) = [of_nat (0xE0 + h), of_nat (0x80 + m), of_nat (0x80 + l)]"
    and "is_scalar_value (4096 * h + 64 * m + l) = (\<not> (h = 13 \<and> 32 \<le> m))"
proof -
  let ?c = "4096 * h + 64 * m + l"
  have r: "\<not> ?c < 0x80" "\<not> ?c < 0x800" "?c < 0x10000" using assms by auto
  show "utf8_encode ?c = [of_nat (0xE0 + h), of_nat (0x80 + m), of_nat (0x80 + l)]"
    unfolding utf8_encode_def using r by (simp only: if_True if_False split3 [OF assms(2,3)])
  consider "h \<le> 12" | "h = 13" | "14 \<le> h" by linarith
  then have "(?c < 0xD800 \<or> 0xDFFF < ?c) = (\<not> (h = 13 \<and> 32 \<le> m))"
    using assms by cases auto
  then show "is_scalar_value ?c = (\<not> (h = 13 \<and> 32 \<le> m))"
    using r by (simp add: is_scalar_value_def)
qed

lemma split4:
  fixes a h m l :: nat
  assumes "h < 64" "m < 64" "l < 64"
  shows "(262144 * a + 4096 * h + 64 * m + l) div 262144 = a"
    "(262144 * a + 4096 * h + 64 * m + l) div 4096 mod 64 = h"
    "(262144 * a + 4096 * h + 64 * m + l) div 64 mod 64 = m"
    "(262144 * a + 4096 * h + 64 * m + l) mod 64 = l"
proof -
  let ?c = "262144 * a + 4096 * h + 64 * m + l"
  have e: "?c = 4096 * (64 * a + h) + 64 * m + l" by simp
  show "?c div 64 mod 64 = m" "?c mod 64 = l"
    unfolding e by (rule split3 [OF assms(2,3)])+
  have d: "?c div 4096 = 64 * a + h" unfolding e by (rule split3 [OF assms(2,3)])
  show "?c div 4096 mod 64 = h" unfolding d using assms by simp
  have "4096 * h + 64 * m + l < 262144" using assms by simp
  then show "?c div 262144 = a" by simp
qed

lemma join4:
  fixes c :: nat
  shows "c = 262144 * (c div 262144) + 4096 * (c div 4096 mod 64) + 64 * (c div 64 mod 64) + c mod 64"
proof -
  have "c div 262144 = c div 4096 div 64" by (simp add: div_mult2_eq)
  then have "64 * (c div 262144) + c div 4096 mod 64 = c div 4096" by simp
  then have "4096 * (c div 4096) = 262144 * (c div 262144) + 4096 * (c div 4096 mod 64)" by simp
  with join3 [of c] show ?thesis by simp
qed

lemma enc4:
  assumes "a < 5" "h < 64" "m < 64" "l < 64" "a = 0 \<longrightarrow> 16 \<le> h"
  shows "utf8_encode (262144 * a + 4096 * h + 64 * m + l) =
      [of_nat (0xF0 + a), of_nat (0x80 + h), of_nat (0x80 + m), of_nat (0x80 + l)]"
    and "is_scalar_value (262144 * a + 4096 * h + 64 * m + l) = (a = 4 \<longrightarrow> h < 16)"
proof -
  let ?c = "262144 * a + 4096 * h + 64 * m + l"
  have r: "\<not> ?c < 0x80" "\<not> ?c < 0x800" "\<not> ?c < 0x10000" using assms by auto
  show "utf8_encode ?c = [of_nat (0xF0 + a), of_nat (0x80 + h), of_nat (0x80 + m), of_nat (0x80 + l)]"
    unfolding utf8_encode_def using r by (simp only: if_True if_False split4 [OF assms(2,3,4)])
  consider "a \<le> 3" | "a = 4" using assms(1) by linarith
  then have "(?c \<le> 0x10FFFF) = (a = 4 \<longrightarrow> h < 16)"
    using assms by cases auto
  moreover have "0xDFFF < ?c" using r by simp
  ultimately show "is_scalar_value ?c = (a = 4 \<longrightarrow> h < 16)"
    by (simp add: is_scalar_value_def)
qed

lemma unat_of_nat_add:
  assumes "base + n < 256"
  shows "unat (of_nat (base + n) :: byte) = base + n"
  using assms by (rule unat_of_nat_byte)

lemma is_cont_of_nat:
  assumes "m < 64"
  shows "is_cont (of_nat (0x80 + m))"
proof -
  have "unat (of_nat (0x80 + m) :: byte) = 0x80 + m"
    by (rule unat_of_nat_add) (use assms in simp)
  then show ?thesis unfolding is_cont_def using assms by (simp only:) simp
qed

lemma utf8_ok_two:
  assumes "0xC2 \<le> unat b" "unat b < 0xE0" "is_cont b1"
  shows "utf8_ok (b # b1 # r) = utf8_ok r"
  using assms by simp

lemma utf8_ok_three:
  assumes "0xE0 \<le> unat b" "unat b < 0xF0" "is_cont b1" "is_cont b2"
    "unat b = 0xE0 \<longrightarrow> 0xA0 \<le> unat b1" "unat b = 0xED \<longrightarrow> unat b1 < 0xA0"
  shows "utf8_ok (b # b1 # b2 # r) = utf8_ok r"
  using assms by simp

lemma utf8_ok_four:
  assumes "0xF0 \<le> unat b" "unat b < 0xF5" "is_cont b1" "is_cont b2" "is_cont b3"
    "unat b = 0xF0 \<longrightarrow> 0x90 \<le> unat b1" "unat b = 0xF4 \<longrightarrow> unat b1 < 0x90"
  shows "utf8_ok (b # b1 # b2 # b3 # r) = utf8_ok r"
  using assms by simp

lemma ok2:
  assumes "2 \<le> h" "h < 32" "m < 64"
  shows "utf8_ok (of_nat (0xC0 + h) # of_nat (0x80 + m) # r) = utf8_ok r"
proof -
  have u: "unat (of_nat (0xC0 + h) :: byte) = 0xC0 + h"
    by (rule unat_of_nat_add) (use assms in simp)
  show ?thesis
    by (rule utf8_ok_two) (simp_all only: u is_cont_of_nat [OF assms(3)], use assms in simp_all)
qed

lemma ok3:
  assumes "h < 16" "m < 64" "l < 64" "h = 0 \<longrightarrow> 32 \<le> m" "\<not> (h = 13 \<and> 32 \<le> m)"
  shows "utf8_ok (of_nat (0xE0 + h) # of_nat (0x80 + m) # of_nat (0x80 + l) # r) = utf8_ok r"
proof -
  have u: "unat (of_nat (0xE0 + h) :: byte) = 0xE0 + h"
    by (rule unat_of_nat_add) (use assms in simp)
  have v: "unat (of_nat (0x80 + m) :: byte) = 0x80 + m"
    by (rule unat_of_nat_add) (use assms in simp)
  show ?thesis
    by (rule utf8_ok_three)
      (simp_all only: u v is_cont_of_nat [OF assms(2)] is_cont_of_nat [OF assms(3)],
        use assms in auto)
qed

lemma ok4:
  assumes "a < 5" "h < 64" "m < 64" "l < 64" "a = 0 \<longrightarrow> 16 \<le> h" "a = 4 \<longrightarrow> h < 16"
  shows "utf8_ok (of_nat (0xF0 + a) # of_nat (0x80 + h) # of_nat (0x80 + m) # of_nat (0x80 + l) # r) =
    utf8_ok r"
proof -
  have u: "unat (of_nat (0xF0 + a) :: byte) = 0xF0 + a"
    by (rule unat_of_nat_add) (use assms in simp)
  have v: "unat (of_nat (0x80 + h) :: byte) = 0x80 + h"
    by (rule unat_of_nat_add) (use assms in simp)
  show ?thesis
    by (rule utf8_ok_four)
      (simp_all only: u v is_cont_of_nat [OF assms(2)] is_cont_of_nat [OF assms(3)]
          is_cont_of_nat [OF assms(4)],
        use assms in auto)
qed

lemma utf8_ok_encode:
  assumes "is_scalar_value c"
  shows "utf8_ok (utf8_encode c @ r) = utf8_ok r"
proof -
  consider (one) "c < 0x80" | (two) "0x80 \<le> c" "c < 0x800" | (three) "0x800 \<le> c" "c < 0x10000"
    | (four) "0x10000 \<le> c" "c \<le> 0x10FFFF"
    using assms unfolding is_scalar_value_def by linarith
  then show ?thesis
  proof cases
    case one
    then show ?thesis by (simp add: enc1 unat_of_nat_byte)
  next
    case two
    define h m where "h = c div 64" and "m = c mod 64"
    have c: "c = 64 * h + m" and m: "m < 64" unfolding h_def m_def by simp_all
    have h: "2 \<le> h" "h < 32" using two unfolding c using m by simp_all
    show ?thesis unfolding c by (simp only: enc2 [OF h m] append_Cons append_Nil ok2 [OF h m])
  next
    case three
    define h m l where "h = c div 4096" and "m = c div 64 mod 64" and "l = c mod 64"
    have c: "c = 4096 * h + 64 * m + l" unfolding h_def m_def l_def by (rule join3)
    have m: "m < 64" "l < 64" unfolding m_def l_def by simp_all
    have h: "h < 16" "h = 0 \<longrightarrow> 32 \<le> m" using three unfolding c using m by auto
    have s: "\<not> (h = 13 \<and> 32 \<le> m)"
      using assms enc3(2) [OF h(1) m h(2)] unfolding c by simp
    show ?thesis unfolding c
      by (simp only: enc3(1) [OF h(1) m h(2)] append_Cons append_Nil ok3 [OF h(1) m h(2) s])
  next
    case four
    define a h m l where "a = c div 262144" and "h = c div 4096 mod 64" and "m = c div 64 mod 64"
      and "l = c mod 64"
    have c: "c = 262144 * a + 4096 * h + 64 * m + l" unfolding a_def h_def m_def l_def by (rule join4)
    have m: "h < 64" "m < 64" "l < 64" unfolding h_def m_def l_def by simp_all
    have a: "a < 5" "a = 0 \<longrightarrow> 16 \<le> h" using four unfolding c using m by auto
    have s: "a = 4 \<longrightarrow> h < 16"
      using assms enc4(2) [OF a(1) m a(2)] unfolding c by simp
    show ?thesis unfolding c
      by (simp only: enc4(1) [OF a(1) m a(2)] append_Cons append_Nil ok4 [OF a(1) m a(2) s])
  qed
qed

lemma well_formed_utf8_ok:
  assumes "well_formed_utf8 bs"
  shows "utf8_ok bs"
proof -
  have "list_all is_scalar_value cs \<Longrightarrow> utf8_ok (concat (map utf8_encode cs))" for cs
    by (induction cs) (simp_all add: utf8_ok_encode)
  with assms show ?thesis unfolding well_formed_utf8_def by blast
qed

lemma utf8_ok_step:
  assumes "utf8_ok (b # bs)"
  shows "\<exists>c r. is_scalar_value c \<and> b # bs = utf8_encode c @ r \<and> utf8_ok r \<and> length r \<le> length bs"
proof -
  have lo: "\<not> unat b < 0x80 \<Longrightarrow> 0xC2 \<le> unat b \<and> unat b < 0xF5"
    using assms by (auto split: if_splits)
  consider (one) "unat b < 0x80" | (two) "0xC2 \<le> unat b" "unat b < 0xE0"
    | (three) "0xE0 \<le> unat b" "unat b < 0xF0" | (four) "0xF0 \<le> unat b" "unat b < 0xF5"
    using lo by linarith
  then show ?thesis
  proof cases
    case one
    have "b # bs = utf8_encode (unat b) @ bs" by (simp add: enc1(1) [OF one])
    moreover have "utf8_ok bs" using assms one by simp
    ultimately show ?thesis using enc1(2) [OF one] by blast
  next
    case two
    then obtain b1 r where bs: "bs = b1 # r" and c1: "is_cont b1" and r: "utf8_ok r"
      using assms by (auto split: list.splits)
    define h m where "h = unat b - 0xC0" and "m = unat b1 - 0x80"
    have h: "2 \<le> h" "h < 32" and m: "m < 64"
      using two c1 unfolding h_def m_def is_cont_def by auto
    have e: "0xC0 + h = unat b" "0x80 + m = unat b1"
      using two c1 unfolding h_def m_def is_cont_def by simp_all
    have "utf8_encode (64 * h + m) = [b, b1]"
      by (simp only: enc2(1) [OF h m] e of_nat_unat_byte)
    then have "b # bs = utf8_encode (64 * h + m) @ r" by (simp add: bs)
    moreover have "length r \<le> length bs" by (simp add: bs)
    ultimately show ?thesis using enc2(2) [OF h m] r by blast
  next
    case three
    then obtain b1 b2 r where bs: "bs = b1 # b2 # r" and c1: "is_cont b1" "is_cont b2"
      and x: "unat b = 0xE0 \<longrightarrow> 0xA0 \<le> unat b1" "unat b = 0xED \<longrightarrow> unat b1 < 0xA0"
      and r: "utf8_ok r"
      using assms by (auto split: list.splits)
    define h m l where "h = unat b - 0xE0" and "m = unat b1 - 0x80" and "l = unat b2 - 0x80"
    have h: "h < 16" and m: "m < 64" "l < 64" and z: "h = 0 \<longrightarrow> 32 \<le> m"
      and s: "\<not> (h = 13 \<and> 32 \<le> m)"
      using three c1 x unfolding h_def m_def l_def is_cont_def by auto
    have e: "0xE0 + h = unat b" "0x80 + m = unat b1" "0x80 + l = unat b2"
      using three c1 unfolding h_def m_def l_def is_cont_def by simp_all
    have "utf8_encode (4096 * h + 64 * m + l) = [b, b1, b2]"
      by (simp only: enc3(1) [OF h m z] e of_nat_unat_byte)
    then have "b # bs = utf8_encode (4096 * h + 64 * m + l) @ r" by (simp add: bs)
    moreover have "length r \<le> length bs" by (simp add: bs)
    moreover have "is_scalar_value (4096 * h + 64 * m + l)"
      using enc3(2) [OF h m z] s by simp
    ultimately show ?thesis using r by blast
  next
    case four
    then obtain b1 b2 b3 r where bs: "bs = b1 # b2 # b3 # r"
      and c1: "is_cont b1" "is_cont b2" "is_cont b3"
      and x: "unat b = 0xF0 \<longrightarrow> 0x90 \<le> unat b1" "unat b = 0xF4 \<longrightarrow> unat b1 < 0x90"
      and r: "utf8_ok r"
      using assms by (auto split: list.splits)
    define a h m l where "a = unat b - 0xF0" and "h = unat b1 - 0x80" and "m = unat b2 - 0x80"
      and "l = unat b3 - 0x80"
    have a: "a < 5" and m: "h < 64" "m < 64" "l < 64" and z: "a = 0 \<longrightarrow> 16 \<le> h"
      and s: "a = 4 \<longrightarrow> h < 16"
      using four c1 x unfolding a_def h_def m_def l_def is_cont_def by auto
    have e: "0xF0 + a = unat b" "0x80 + h = unat b1" "0x80 + m = unat b2" "0x80 + l = unat b3"
      using four c1 unfolding a_def h_def m_def l_def is_cont_def by simp_all
    have "utf8_encode (262144 * a + 4096 * h + 64 * m + l) = [b, b1, b2, b3]"
      by (simp only: enc4(1) [OF a m z] e of_nat_unat_byte)
    then have "b # bs = utf8_encode (262144 * a + 4096 * h + 64 * m + l) @ r" by (simp add: bs)
    moreover have "length r \<le> length bs" by (simp add: bs)
    moreover have "is_scalar_value (262144 * a + 4096 * h + 64 * m + l)"
      using enc4(2) [OF a m z] s by simp
    ultimately show ?thesis using r by blast
  qed
qed

lemma utf8_ok_well_formed:
  "utf8_ok bs \<Longrightarrow> well_formed_utf8 bs"
proof (induction bs rule: length_induct)
  case (1 bs)
  show ?case
  proof (cases bs)
    case Nil
    have "list_all is_scalar_value [] \<and> [] = concat (map utf8_encode [])" by simp
    then show ?thesis unfolding Nil well_formed_utf8_def by blast
  next
    case (Cons b t)
    from utf8_ok_step [of b t] 1(2) Cons obtain c r where
      c: "is_scalar_value c" and e: "bs = utf8_encode c @ r" and r: "utf8_ok r"
      and len: "length r \<le> length t" by auto
    have "length r < length bs" using len Cons by simp
    with 1(1) r have "well_formed_utf8 r" by blast
    then obtain cs where cs: "list_all is_scalar_value cs" "r = concat (map utf8_encode cs)"
      unfolding well_formed_utf8_def by blast
    have "list_all is_scalar_value (c # cs) \<and> bs = concat (map utf8_encode (c # cs))"
      using c cs e by simp
    then show ?thesis unfolding well_formed_utf8_def by blast
  qed
qed

text \<open>
  Claim C7. \<open>isValidUtf8\<close> returns true exactly on the well-formed UTF-8 strings of
  RFC 3629: the concatenations of the shortest-form encodings of the code points up to
  U+10FFFF outside the surrogate range U+D800 to U+DFFF. Overlong forms, surrogates, code
  points above U+10FFFF, truncated sequences and stray leading or continuation bytes are
  all rejected, and nothing else is.
\<close>

theorem isValidUtf8_well_formed: "isValidUtf8 s \<longleftrightarrow> well_formed_utf8 s"
  using isValidUtf8_utf8_ok [of s] well_formed_utf8_ok [of s] utf8_ok_well_formed [of s] by blast

text \<open>The euro sign, U+20AC, in its three-byte form.\<close>

theorem isValidUtf8_well_formed_witness:
  "isValidUtf8 [0xE2, 0x82, 0xAC] \<and> well_formed_utf8 [0xE2, 0x82, 0xAC]"
proof -
  have "list_all is_scalar_value [0x20AC] \<and>
        [0xE2, 0x82, 0xAC] = concat (map utf8_encode [0x20AC])"
    by (simp add: is_scalar_value_def utf8_encode_def)
  then have "well_formed_utf8 [0xE2, 0x82, 0xAC]" unfolding well_formed_utf8_def by blast
  with isValidUtf8_well_formed [of "[0xE2, 0x82, 0xAC]"] show ?thesis by simp
qed

end
